theory Spec2Isabelle
  imports Main "HOL-Library.Sublist"
begin

section \<open>Text of the TPS core\<close>

text \<open>
  A Python \<open>str\<close> is a sequence of Unicode code points, and \<open>len\<close>, the \<open>re\<close>
  module and \<open>str.replace\<close> all work on code points. A text is therefore a list of
  code points (natural numbers); \<open>u\<close> reads an ASCII literal as such a list.
\<close>

type_synonym pystr = "nat list"

definition u :: "string \<Rightarrow> pystr" where
  "u s = map of_char s"

text \<open>
  Two parts of Python's Unicode database decide the result on characters beyond ASCII and
  are not part of the repository: which of these characters are alphanumeric
  (\<open>\w\<close> of \<open>re\<close> on a \<open>str\<close> is \<open>str.isalnum\<close> or the underscore), and what
  \<open>str.lower\<close> makes of them (one character can become several, and the capital sigma
  depends on its neighbours, hence the text and the position as arguments). They are
  parameters of the model. On ASCII the model is fixed and complete.
\<close>

record unicode_db =
  uni_alnum :: "nat \<Rightarrow> bool"
  uni_lower :: "pystr \<Rightarrow> nat \<Rightarrow> pystr"

definition ascii_upper :: "nat \<Rightarrow> bool" where
  "ascii_upper c = (65 \<le> c \<and> c \<le> 90)"

definition ascii_letter :: "nat \<Rightarrow> bool" where
  "ascii_letter c = (ascii_upper c \<or> (97 \<le> c \<and> c \<le> 122))"

definition ascii_digit :: "nat \<Rightarrow> bool" where
  "ascii_digit c = (48 \<le> c \<and> c \<le> 57)"

definition is_word :: "unicode_db \<Rightarrow> nat \<Rightarrow> bool" where
  "is_word db c =
     (if c < 128 then ascii_letter c \<or> ascii_digit c \<or> c = 95 else uni_alnum db c)"

definition lower_at :: "unicode_db \<Rightarrow> pystr \<Rightarrow> nat \<Rightarrow> pystr" where
  "lower_at db t i =
     (let c = t ! i
      in if c < 128 then [if ascii_upper c then c + 32 else c] else uni_lower db t i)"

definition py_lower :: "unicode_db \<Rightarrow> pystr \<Rightarrow> pystr" where
  "py_lower db t = concat (map (lower_at db t) [0..<length t])"

text \<open>
  The characters \<open>str.strip()\<close> removes: those for which \<open>str.isspace\<close> holds.
\<close>

definition py_isspace :: "nat \<Rightarrow> bool" where
  "py_isspace c =
     ((9 \<le> c \<and> c \<le> 13) \<or> (28 \<le> c \<and> c \<le> 32) \<or> c = 133 \<or> c = 160 \<or> c = 5760
      \<or> (8192 \<le> c \<and> c \<le> 8202) \<or> c = 8232 \<or> c = 8233 \<or> c = 8239 \<or> c = 8287
      \<or> c = 12288)"

definition py_strip :: "pystr \<Rightarrow> pystr" where
  "py_strip t = rev (dropWhile py_isspace (rev (dropWhile py_isspace t)))"

text \<open>
  \<open>str.replace(old, new)\<close>: the occurrences of \<open>old\<close> are found from the left and do
  not overlap. With an empty \<open>old\<close>, Python puts \<open>new\<close> before every character and at
  the end.
\<close>

fun replace_from :: "pystr \<Rightarrow> pystr \<Rightarrow> pystr \<Rightarrow> pystr" where
  "replace_from old new [] = []"
| "replace_from old new (c # cs) =
     (if prefix old (c # cs) then new @ replace_from old new (drop (length old - 1) cs)
      else c # replace_from old new cs)"

definition py_replace :: "pystr \<Rightarrow> pystr \<Rightarrow> pystr \<Rightarrow> pystr" where
  "py_replace old new t =
     (if old = [] then new @ concat (map (\<lambda>c. c # new) t) else replace_from old new t)"

subsection \<open>simple_normalize\<close>

text \<open>\<open>re.sub(r"[ \u00A0]+", " ", t)\<close>: every run of spaces and no-break spaces becomes one space.\<close>

definition space_or_nbsp :: "nat \<Rightarrow> bool" where
  "space_or_nbsp c = (c = 32 \<or> c = 160)"

function collapse_spaces :: "pystr \<Rightarrow> pystr" where
  "collapse_spaces [] = []"
| "collapse_spaces (c # cs) =
     (if space_or_nbsp c then 32 # collapse_spaces (dropWhile space_or_nbsp cs)
      else c # collapse_spaces cs)"
  by pat_completeness auto
termination
  by (relation "measure length") (auto simp: length_dropWhile_le less_Suc_eq_le)

text \<open>\<open>re.sub(r"\r\n?", "\n", t)\<close>: a carriage return, with the line feed after it if there is one, becomes a line feed.\<close>

fun newlines :: "pystr \<Rightarrow> pystr" where
  "newlines [] = []"
| "newlines [c] = [if c = 13 then 10 else c]"
| "newlines (c # d # cs) =
     (if c = 13 then (if d = 10 then 10 # newlines cs else 10 # newlines (d # cs))
      else c # newlines (d # cs))"

text \<open>
  The last statement of \<open>simple_normalize\<close> is, character for character,
  \<^verbatim>\<open>t = t.replace(""", '"').replace(""", '"').replace("'", "'")\<close>
  with ASCII quotes only. Python reads the first three double quotes as the start of a
  triple-quoted string, which ends at the next three: the statement is
  \<open>t.replace(OLD, '"').replace("'", "'")\<close>, where \<open>OLD\<close> is the 15 characters between
  the two triple quotes, namely comma, space, single quote, double quote, single quote,
  closing parenthesis, \<open>.replace\<close> and an opening parenthesis.
\<close>

definition quote_old :: pystr where
  "quote_old = [44, 32, 39, 34, 39, 41] @ u ''.replace(''"

definition simple_normalize :: "pystr \<Rightarrow> pystr" where
  "simple_normalize text =
     (let t = map (\<lambda>c. if c = 9 then 32 else c) text;
          t = collapse_spaces t;
          t = newlines t;
          t = py_strip t;
          t = py_replace [39] [39] (py_replace quote_old [34] t)
      in t)"

subsection \<open>infer_language_guess\<close>

text \<open>
  Each test is \<open>re.search\<close> of one character class: it succeeds when some character of
  the text is in the class. The classes, as code points of the characters in the source:
  \<^item> U+0410 to U+042F, U+0430 to U+044F, U+0401, U+0451;
  \<^item> U+3041 to U+309F, U+30A0 to U+30FF, U+4E00 to U+9FFF;
  \<^item> the nine characters E1 E9 ED F3 FA F1 FC BF A1;
  \<^item> the sixteen characters E0 E2 E4 E9 E8 EA EB EE EF F4 F6 F9 FB FC FF E7;
  \<^item> the four characters E4 F6 FC DF.
\<close>

definition cyrillic :: "nat \<Rightarrow> bool" where
  "cyrillic c = ((1040 \<le> c \<and> c \<le> 1071) \<or> (1072 \<le> c \<and> c \<le> 1103) \<or> c = 1025 \<or> c = 1105)"

definition cjk :: "nat \<Rightarrow> bool" where
  "cjk c = ((12353 \<le> c \<and> c \<le> 12447) \<or> (12448 \<le> c \<and> c \<le> 12543) \<or> (19968 \<le> c \<and> c \<le> 40959))"

definition spanish_set :: "nat list" where
  "spanish_set = [225, 233, 237, 243, 250, 241, 252, 191, 161]"

definition french_set :: "nat list" where
  "french_set = [224, 226, 228, 233, 232, 234, 235, 238, 239, 244, 246, 249, 251, 252, 255, 231]"

definition german_set :: "nat list" where
  "german_set = [228, 246, 252, 223]"

definition re_search :: "(nat \<Rightarrow> bool) \<Rightarrow> pystr \<Rightarrow> bool" where
  "re_search cls text = list_ex cls text"

definition infer_language_guess :: "pystr \<Rightarrow> string" where
  "infer_language_guess text =
     (if re_search cyrillic text then ''Russian''
      else if re_search cjk text then ''Japanese/Chinese''
      else if re_search (\<lambda>c. c \<in> set spanish_set) text then ''Spanish''
      else if re_search (\<lambda>c. c \<in> set french_set) text then ''French''
      else if re_search (\<lambda>c. c \<in> set german_set) text then ''German''
      else ''English'')"

subsection \<open>extract_tags\<close>

text \<open>
  \<open>re.findall(r"#(\w+)", text)\<close>: at a \<open>#\<close> followed by a word character the match
  takes the whole run of word characters and the search goes on after it; the run is
  what \<open>findall\<close> returns for the match.
\<close>

function hashtags :: "unicode_db \<Rightarrow> pystr \<Rightarrow> pystr list" where
  "hashtags db [] = []"
| "hashtags db (c # cs) =
     (if c = 35 \<and> cs \<noteq> [] \<and> is_word db (hd cs)
      then takeWhile (is_word db) cs # hashtags db (dropWhile (is_word db) cs)
      else hashtags db cs)"
  by pat_completeness auto
termination
  by (relation "measure (\<lambda>(db, t). length t)") (auto simp: length_dropWhile_le less_Suc_eq_le)

text \<open>
  \<open>re.findall(r"\b[a-zA-Z]{5,}\b", t)\<close>. A match starts where the character before is
  not a word character (or at the start of the text), takes a run of ASCII letters, and
  must end where the next character is not a word character (or at the end). Between two
  letters there is no word boundary, so only the whole run of letters can be the match;
  when it is shorter than five or is followed by a word character, the search moves one
  character on, now with a word character before it. \<open>prev\<close> says whether the character
  before is a word character.
\<close>

function tokens_from :: "unicode_db \<Rightarrow> bool \<Rightarrow> pystr \<Rightarrow> pystr list" where
  "tokens_from db prev [] = []"
| "tokens_from db prev (c # cs) =
     (let run = takeWhile ascii_letter (c # cs); rest = dropWhile ascii_letter (c # cs)
      in if \<not> prev \<and> 5 \<le> length run \<and> (rest = [] \<or> \<not> is_word db (hd rest))
         then run # tokens_from db True rest
         else tokens_from db (is_word db c) cs)"
  by pat_completeness auto
termination
proof (relation "measure (\<lambda>(db, prev, t). length t)", goal_cases)
  case 1
  show ?case by simp
next
  case (2 db prev c cs run rest)
  then have "ascii_letter c"
    by (auto split: if_splits)
  with 2 show ?case
    by (simp add: length_dropWhile_le less_Suc_eq_le)
next
  case 3
  then show ?case by simp
qed

definition add_new :: "'a \<Rightarrow> 'a list \<Rightarrow> 'a list" where
  "add_new x xs = (if x \<in> set xs then xs else xs @ [x])"

text \<open>\<open>list(dict.fromkeys(xs))\<close>: a dictionary keeps its keys in the order of their first insertion.\<close>

definition fromkeys :: "'a list \<Rightarrow> 'a list" where
  "fromkeys xs = fold add_new xs []"

definition extract_tags :: "unicode_db \<Rightarrow> pystr \<Rightarrow> pystr list" where
  "extract_tags db text =
     (let tags = hashtags db text;
          tokens = tokens_from db False (py_lower db text);
          tags = fold add_new (take 5 tokens) tags
      in take 10 (fromkeys tags))"

subsection \<open>tps_ai_clean\<close>

text \<open>\<open>re.findall(r"\w+", t)\<close>: the maximal runs of word characters.\<close>

function words :: "unicode_db \<Rightarrow> pystr \<Rightarrow> pystr list" where
  "words db [] = []"
| "words db (c # cs) =
     (if is_word db c
      then (c # takeWhile (is_word db) cs) # words db (dropWhile (is_word db) cs)
      else words db cs)"
  by pat_completeness auto
termination
  by (relation "measure (\<lambda>(db, t). length t)") (auto simp: length_dropWhile_le less_Suc_eq_le)

text \<open>
  \<open>round(n / d)\<close> for integers \<open>n \<ge> 0\<close> and \<open>d > 0\<close>: Python's \<open>round\<close> takes the
  nearest integer and, of two equally near, the even one. The quotient is a float; with
  \<open>d = 200\<close> it is exact at every tie, and for \<open>n\<close> below \<open>2 ^ 53\<close> it lies on the same side of
  every tie as the exact quotient, so the integer arithmetic here gives what Python gives
  on every word count a text in memory can have.
\<close>

definition py_round_div :: "nat \<Rightarrow> nat \<Rightarrow> nat" where
  "py_round_div n d =
     (let q = n div d; r = n mod d
      in if 2 * r < d then q else if d < 2 * r then q + 1 else if even q then q else q + 1)"

record metadata =
  source :: string
  word_count :: nat
  char_count :: nat
  language_guess :: string
  tags :: "pystr list"
  reading_time_minutes :: nat
  processed_at :: string

text \<open>\<open>now\<close> is what \<open>now_iso()\<close> returns when \<open>tps_ai_clean\<close> calls it.\<close>

definition tps_ai_clean :: "unicode_db \<Rightarrow> string \<Rightarrow> pystr \<Rightarrow> pystr \<times> metadata" where
  "tps_ai_clean db now raw_text =
     (let cleaned = simple_normalize raw_text;
          wc = length (words db cleaned);
          cc = length cleaned;
          language = infer_language_guess cleaned;
          tgs = extract_tags db cleaned;
          reading_time = max 1 (py_round_div wc 200)
      in (cleaned,
          \<lparr>source = ''tps_ai_processor'', word_count = wc, char_count = cc,
           language_guess = language, tags = tgs, reading_time_minutes = reading_time,
           processed_at = now\<rparr>))"

section \<open>The database\<close>

text \<open>
  The two tables of the schema, each a list of rows in the order of insertion, and the
  counters SQLite keeps for the two \<open>AUTOINCREMENT\<close> keys. The metadata is stored as
  the record itself, not as its JSON text. The status is the string the code writes.
\<close>

record raw_entry =
  raw_id :: nat
  raw_text :: pystr
  raw_created_at :: string
  status :: string

record cleaned_entry =
  ce_id :: nat
  ce_raw_id :: nat
  clean_text :: pystr
  metadata_json :: metadata
  ce_created_at :: string

record conn =
  raw_entries :: "raw_entry list"
  cleaned_entries :: "cleaned_entry list"
  raw_seq :: nat
  cleaned_seq :: nat

text \<open>The database that \<open>get_conn\<close> creates from the schema when there is none.\<close>

definition empty_db :: conn where
  "empty_db = \<lparr>raw_entries = [], cleaned_entries = [], raw_seq = 0, cleaned_seq = 0\<rparr>"

datatype exn =
  IntegrityError string | OperationalError string | UnicodeEncodeError string | Raised string

text \<open>
  An \<open>AUTOINCREMENT\<close> key is one more than the largest key the table has ever had: the
  larger of the counter and the keys present, plus one.
\<close>

definition next_rowid :: "nat \<Rightarrow> nat list \<Rightarrow> nat" where
  "next_rowid seq ids = Suc (fold max ids seq)"

definition add_raw :: "conn \<Rightarrow> pystr \<Rightarrow> string \<Rightarrow> conn \<times> nat" where
  "add_raw c text now =
     (let i = next_rowid (raw_seq c) (map raw_id (raw_entries c))
      in (c\<lparr>raw_entries := raw_entries c @
               [\<lparr>raw_id = i, raw_text = text, raw_created_at = now, status = ''pending''\<rparr>],
            raw_seq := i\<rparr>, i))"

text \<open>
  The \<open>INSERT\<close> into \<open>cleaned_entries\<close>. The schema rejects it when the table already
  has a row with this \<open>raw_id\<close> (\<open>UNIQUE\<close>) and when no raw entry has this id
  (\<open>FOREIGN KEY\<close>, with \<open>foreign_keys=ON\<close>); the statement then changes nothing.
\<close>

definition insert_cleaned ::
  "conn \<Rightarrow> nat \<Rightarrow> pystr \<Rightarrow> metadata \<Rightarrow> string \<Rightarrow> exn + conn" where
  "insert_cleaned c rid cleaned meta now =
     (if rid \<in> set (map ce_raw_id (cleaned_entries c))
      then Inl (IntegrityError ''UNIQUE constraint failed: cleaned_entries.raw_id'')
      else if rid \<notin> set (map raw_id (raw_entries c))
      then Inl (IntegrityError ''FOREIGN KEY constraint failed'')
      else let i = next_rowid (cleaned_seq c) (map ce_id (cleaned_entries c))
           in Inr (c\<lparr>cleaned_entries := cleaned_entries c @
                       [\<lparr>ce_id = i, ce_raw_id = rid, clean_text = cleaned,
                         metadata_json = meta, ce_created_at = now\<rparr>],
                     cleaned_seq := i\<rparr>))"

text \<open>\<open>UPDATE raw_entries SET status=s WHERE id=rid\<close>.\<close>

definition set_status :: "conn \<Rightarrow> nat \<Rightarrow> string \<Rightarrow> conn" where
  "set_status c rid s =
     c\<lparr>raw_entries := map (\<lambda>r. if raw_id r = rid then r\<lparr>status := s\<rparr> else r) (raw_entries c)\<rparr>"

subsection \<open>process_pending\<close>

text \<open>
  The body of the loop is a \<open>try\<close> around the cleaning, the \<open>INSERT\<close> and the
  \<open>UPDATE\<close>, with one handler for every exception. The cleaning step is a parameter
  here, so that the handler can be reached: \<open>tps_ai_clean\<close> itself raises nothing, and
  its docstring asks for it to be replaced. A cleaner takes the reading of the clock and
  the text, and returns the pair of \<open>tps_ai_clean\<close> or the exception it raises.
  \<open>now rid\<close> is the pair of readings \<open>now_iso()\<close> gives while the row \<open>rid\<close> is
  processed: the first inside the cleaner, the second for the \<open>INSERT\<close>.
  The message the handler prints is left out.
\<close>

type_synonym cleaner = "string \<Rightarrow> pystr \<Rightarrow> exn + (pystr \<times> metadata)"

definition process_row ::
  "cleaner \<Rightarrow> (nat \<Rightarrow> string \<times> string) \<Rightarrow> raw_entry \<Rightarrow> conn \<times> nat \<times> nat \<Rightarrow> conn \<times> nat \<times> nat" where
  "process_row clean now r acc =
     (case acc of (c, ok, err) \<Rightarrow>
        (case clean (fst (now (raw_id r))) (raw_text r) of
           Inl e \<Rightarrow> (set_status c (raw_id r) ''error'', ok, err + 1)
         | Inr (cleaned, meta) \<Rightarrow>
             (case insert_cleaned c (raw_id r) cleaned meta (snd (now (raw_id r))) of
                Inl e \<Rightarrow> (set_status c (raw_id r) ''error'', ok, err + 1)
              | Inr c' \<Rightarrow> (set_status c' (raw_id r) ''processed'', ok + 1, err))))"

definition pending_rows :: "conn \<Rightarrow> raw_entry list" where
  "pending_rows c = sort_key raw_id (filter (\<lambda>r. status r = ''pending'') (raw_entries c))"

definition process_pending_with ::
  "cleaner \<Rightarrow> (nat \<Rightarrow> string \<times> string) \<Rightarrow> conn \<Rightarrow> conn \<times> (nat \<times> nat)" where
  "process_pending_with clean now c =
     (case fold (process_row clean now) (pending_rows c) (c, 0, 0) of
        (c', ok, err) \<Rightarrow> (c', (ok, err)))"

definition process_pending ::
  "unicode_db \<Rightarrow> (nat \<Rightarrow> string \<times> string) \<Rightarrow> conn \<Rightarrow> conn \<times> (nat \<times> nat)" where
  "process_pending db now c =
     process_pending_with (\<lambda>t text. Inr (tps_ai_clean db t text)) now c"

subsection \<open>count_stats\<close>

definition count_status :: "conn \<Rightarrow> string \<Rightarrow> nat" where
  "count_status c s = length (filter (\<lambda>r. status r = s) (raw_entries c))"

definition count_stats :: "conn \<Rightarrow> nat \<times> nat \<times> nat" where
  "count_stats c =
     (length (raw_entries c), count_status c ''processed'', count_status c ''error'')"

subsection \<open>Reachable databases\<close>

text \<open>
  The states the core operations produce from the empty database, with any cleaner in
  the place of \<open>tps_ai_clean\<close>.
\<close>

inductive reachable :: "cleaner \<Rightarrow> conn \<Rightarrow> bool" for clean :: cleaner where
  init: "reachable clean empty_db"
| added: "reachable clean c \<Longrightarrow> reachable clean (fst (add_raw c text now))"
| processed: "reachable clean c \<Longrightarrow> reachable clean (fst (process_pending_with clean now c))"

subsection \<open>search_clean\<close>

text \<open>A row of the result of \<open>search_clean\<close>: the seven columns of its \<open>SELECT\<close>.\<close>

record search_row =
  sr_id :: nat
  sr_raw_id :: nat
  sr_clean_text_preview :: pystr
  sr_clean_text :: pystr
  sr_metadata_json :: metadata
  sr_created_at :: string
  sr_raw_created_at :: string

text \<open>
  Python stores a text with the NUL characters it has, and SQLite's \<open>LIKE\<close>,
  \<open>length\<close> and \<open>substr\<close> read a text as a C string: up to its first NUL.
\<close>

definition c_str :: "pystr \<Rightarrow> pystr" where
  "c_str t = takeWhile (\<lambda>c. c \<noteq> 0) t"

text \<open>The number of bytes of a text in UTF-8, the encoding of the database.\<close>

definition utf8_length :: "pystr \<Rightarrow> nat" where
  "utf8_length t =
     sum_list (map (\<lambda>c. if c < 128 then 1 else if c < 2048 then 2 else if c < 65536 then 3 else 4) t)"

text \<open>
  SQLite refuses a \<open>LIKE\<close> pattern of more bytes than its limit
  \<open>SQLITE_MAX_LIKE_PATTERN_LENGTH\<close>, which the code leaves at the default.
\<close>

definition like_pattern_limit :: nat where
  "like_pattern_limit = 50000"

text \<open>
  \<open>X LIKE P\<close> as SQLite evaluates it with no \<open>ESCAPE\<close> and the default
  \<open>case_sensitive_like=OFF\<close>: a \<open>%\<close> (37) in the pattern matches any sequence of
  characters, a \<open>_\<close> (95) any one character, and any other character matches itself
  or, when both are ASCII, the same letter in the other case.
\<close>

definition sqlite_lower :: "nat \<Rightarrow> nat" where
  "sqlite_lower c = (if ascii_upper c then c + 32 else c)"

definition like_eq :: "nat \<Rightarrow> nat \<Rightarrow> bool" where
  "like_eq p c = (p = c \<or> (p < 128 \<and> c < 128 \<and> sqlite_lower p = sqlite_lower c))"

fun like :: "pystr \<Rightarrow> pystr \<Rightarrow> bool" where
  "like [] s = (s = [])"
| "like (p # ps) [] = (p = 37 \<and> like ps [])"
| "like (p # ps) (c # cs) =
     (if p = 37 then like ps (c # cs) \<or> like (p # ps) cs
      else (p = 95 \<or> like_eq p c) \<and> like ps cs)"

text \<open>The \<open>CASE\<close> expression of the \<open>SELECT\<close>: the first 200 characters and three dots for a longer text.\<close>

definition preview :: "pystr \<Rightarrow> pystr" where
  "preview t = (if 200 < length (c_str t) then take 200 t @ u ''...'' else t)"

text \<open>\<open>cleaned_entries ce JOIN raw_entries r ON r.id = ce.raw_id\<close>, with the columns selected.\<close>

definition joined_rows :: "conn \<Rightarrow> search_row list" where
  "joined_rows c =
     concat (map (\<lambda>ce. map (\<lambda>r.
         \<lparr>sr_id = ce_id ce, sr_raw_id = ce_raw_id ce,
          sr_clean_text_preview = preview (clean_text ce), sr_clean_text = clean_text ce,
          sr_metadata_json = metadata_json ce, sr_created_at = ce_created_at ce,
          sr_raw_created_at = raw_created_at r\<rparr>)
       (filter (\<lambda>r. raw_id r = ce_raw_id ce) (raw_entries c))) (cleaned_entries c))"

text \<open>\<open>ORDER BY ce.id DESC LIMIT 50\<close>.\<close>

definition newest_50 :: "search_row list \<Rightarrow> search_row list" where
  "newest_50 rows = take 50 (rev (sort_key sr_id rows))"

text \<open>
  \<open>conn.execute\<close> binds a \<open>str\<close> parameter as UTF-8. A lone surrogate (U+D800 to
  U+DFFF) has no encoding, and the call raises \<open>UnicodeEncodeError\<close> before the
  statement runs. A \<open>str\<close> holds no code point above U+10FFFF.
\<close>

definition unicode_scalar :: "nat \<Rightarrow> bool" where
  "unicode_scalar c = (c < 55296 \<or> (57343 < c \<and> c < 1114112))"

definition utf8_encodable :: "pystr \<Rightarrow> bool" where
  "utf8_encodable t = list_all unicode_scalar t"

text \<open>
  The full-text index (SQLite's FTS5) is not part of the repository. \<open>fts query\<close>
  stands for what \<open>MATCH\<close> makes of the query: an error (a query outside the FTS5
  syntax, or no index), or the test that a \<open>clean_text\<close> passes. Without the index
  the pattern is \<open>%\<close>, the query, \<open>%\<close>; a pattern over the limit is an error as
  soon as \<open>LIKE\<close> is evaluated on a row.
\<close>

definition search_clean ::
  "(pystr \<Rightarrow> exn + (pystr \<Rightarrow> bool)) \<Rightarrow> conn \<Rightarrow> pystr \<Rightarrow> bool \<Rightarrow> exn + search_row list" where
  "search_clean fts c query use_fts =
     (if utf8_encodable query
      then (if use_fts
            then (case fts query of
                    Inl e \<Rightarrow> Inl e
                  | Inr matches \<Rightarrow>
                      Inr (newest_50
                        (filter (\<lambda>row. matches (sr_clean_text row)) (joined_rows c))))
            else let q = [37] @ query @ [37]
                 in if joined_rows c \<noteq> [] \<and> like_pattern_limit < utf8_length q
                    then Inl (OperationalError ''LIKE or GLOB pattern too complex'')
                    else Inr (newest_50
                           (filter (\<lambda>row. like (c_str q) (c_str (sr_clean_text row)))
                             (joined_rows c))))
      else Inl (UnicodeEncodeError ''surrogates not allowed''))"

section \<open>Inputs and notions of the specification\<close>

text \<open>
  A database for texts that are ASCII throughout: no character beyond ASCII is
  alphanumeric, and lower case leaves such a character as it is.
\<close>

definition ascii_db :: unicode_db where
  "ascii_db = \<lparr>uni_alnum = (\<lambda>c. False), uni_lower = (\<lambda>t i. [t ! i])\<rparr>"

text \<open>The example of the specification: \<open>Hello\<close>, three spaces, \<open>world\<close>, a tab, and the rest.\<close>

definition example_input :: pystr where
  "example_input = u ''Hello   world'' @ [9] @ u ''#fun #fun testingword''"

text \<open>
  The text \<open>quote_old\<close> with a second copy of itself after its third character: comma,
  space, single quote, then \<open>quote_old\<close>, then single quote, closing parenthesis,
  \<open>.replace(\<close>.
\<close>

definition nested_quote_text :: pystr where
  "nested_quote_text = [44, 32, 39] @ quote_old @ [39, 41] @ u ''.replace(''"

text \<open>The text of \<open>n + 1\<close> words \<open>a\<close> with one space between them.\<close>

definition a_words :: "nat \<Rightarrow> pystr" where
  "a_words n = concat (replicate n [97, 32]) @ [97]"

text \<open>The ceiling of \<open>n / d\<close>, the rounding the specification names for the reading time.\<close>

definition ceil_div :: "nat \<Rightarrow> nat \<Rightarrow> nat" where
  "ceil_div n d = (n + d - 1) div d"

text \<open>
  The elements of a list at the positions where they are seen first: what the
  specification calls de-duplicated, preserving first-seen order.
\<close>

definition first_seen :: "'a list \<Rightarrow> 'a list" where
  "first_seen xs =
     map (\<lambda>i. xs ! i) (filter (\<lambda>i. xs ! i \<notin> set (take i xs)) [0..<length xs])"

text \<open>The cleaned entries of a raw entry: the rows of \<open>cleaned_entries\<close> whose \<open>raw_id\<close> is its id.\<close>

definition cleaned_for :: "conn \<Rightarrow> nat \<Rightarrow> cleaned_entry list" where
  "cleaned_for c rid = filter (\<lambda>e. ce_raw_id e = rid) (cleaned_entries c)"

text \<open>
  What holds of every database the core operations produce: the ids of the raw entries
  differ, every cleaned entry belongs to a raw entry, every status is one of the three,
  and a raw entry has one cleaned entry when it is processed and none otherwise.
\<close>

definition db_inv :: "conn \<Rightarrow> bool" where
  "db_inv c =
     (distinct (map raw_id (raw_entries c)) \<and>
      set (map ce_raw_id (cleaned_entries c)) \<subseteq> set (map raw_id (raw_entries c)) \<and>
      (\<forall>r\<in>set (raw_entries c).
         status r \<in> {''pending'', ''processed'', ''error''} \<and>
         length (cleaned_for c (raw_id r)) = (if status r = ''processed'' then 1 else 0)))"

text \<open>
  A cleaner that raises on the text \<open>bad\<close> and is \<open>tps_ai_clean\<close> on every other
  text, a clock, and two databases: two pending entries, the first of them \<open>bad\<close>;
  and the same after one run of the pipeline and one more entry.
\<close>

definition demo_clean :: cleaner where
  "demo_clean t text =
     (if text = u ''bad'' then Inl (Raised ''cannot clean'') else Inr (tps_ai_clean ascii_db t text))"

definition demo_now :: "nat \<Rightarrow> string \<times> string" where
  "demo_now i = (''2024-01-01T00:00:00Z'', ''2024-01-01T00:00:01Z'')"

definition demo_pending_db :: conn where
  "demo_pending_db =
     fst (add_raw (fst (add_raw empty_db (u ''bad'') ''2024-01-01T00:00:00Z''))
       (u ''Hello world'') ''2024-01-01T00:00:00Z'')"

definition demo_db :: conn where
  "demo_db =
     fst (add_raw (fst (process_pending_with demo_clean demo_now demo_pending_db))
       (u ''later'') ''2024-01-01T00:00:02Z'')"

text \<open>
  The query occurs in the text up to the case of ASCII letters: at the start of the
  text (\<open>nocase_prefix\<close>), or anywhere in it (\<open>contains_nocase\<close>).
\<close>

fun nocase_prefix :: "pystr \<Rightarrow> pystr \<Rightarrow> bool" where
  "nocase_prefix [] s = True"
| "nocase_prefix (p # ps) [] = False"
| "nocase_prefix (p # ps) (c # cs) = (like_eq p c \<and> nocase_prefix ps cs)"

fun contains_nocase :: "pystr \<Rightarrow> pystr \<Rightarrow> bool" where
  "contains_nocase q [] = nocase_prefix q []"
| "contains_nocase q (c # cs) = (nocase_prefix q (c # cs) \<or> contains_nocase q cs)"

text \<open>
  The two notions of the amended search claim. ASCII letters compared without regard to
  case: two texts are the same once every ASCII capital is replaced by its small letter.
  A text contains another when the other is a \<open>sublist\<close> of it.
\<close>

definition ascii_fold :: "nat \<Rightarrow> nat" where
  "ascii_fold c = (if 65 \<le> c \<and> c \<le> 90 then c + 32 else c)"

text \<open>
  A Cyrillic character, in the words of the specification: a character of the Unicode
  block Cyrillic, U+0400 to U+04FF.
\<close>

definition cyrillic_block :: "nat \<Rightarrow> bool" where
  "cyrillic_block c = (1024 \<le> c \<and> c \<le> 1279)"

text \<open>A connection without the index, and a database with the one entry \<open>Hello world\<close>, processed.\<close>

definition no_fts :: "pystr \<Rightarrow> exn + (pystr \<Rightarrow> bool)" where
  "no_fts q = Inl (OperationalError ''no such table: cleaned_entries_fts'')"

definition search_db :: conn where
  "search_db =
     fst (process_pending ascii_db (\<lambda>i. (''2024-01-01T00:00:01Z'', ''2024-01-01T00:00:01Z''))
       (fst (add_raw empty_db (u ''Hello world'') ''2024-01-01T00:00:00Z'')))"

section \<open>Properties of the text functions\<close>

lemmas text_eval = u_def is_word_def ascii_letter_def ascii_upper_def ascii_digit_def
  py_lower_def lower_at_def add_new_def fromkeys_def upt_rec

lemmas lang_eval = infer_language_guess_def re_search_def cyrillic_def cjk_def
  spanish_set_def french_set_def german_set_def

lemmas norm_eval = simple_normalize_def py_strip_def py_isspace_def space_or_nbsp_def
  py_replace_def quote_old_def u_def

subsection \<open>The example\<close>

lemma example_normalized:
  "simple_normalize example_input = u ''Hello world #fun #fun testingword''"
  by (simp add: norm_eval example_input_def)

lemma example_tags:
  "extract_tags db (u ''Hello world #fun #fun testingword'') =
     [u ''fun'', u ''hello'', u ''world'', u ''testingword'']"
  by (simp add: extract_tags_def text_eval)

lemma example_words:
  "words db (u ''Hello world #fun #fun testingword'') =
     [u ''Hello'', u ''world'', u ''fun'', u ''fun'', u ''testingword'']"
  by (simp add: text_eval)

lemma example_language:
  "infer_language_guess (u ''Hello world #fun #fun testingword'') = ''English''"
  by (simp add: lang_eval u_def)

lemma example_clean:
  "tps_ai_clean db now example_input =
     (u ''Hello world #fun #fun testingword'',
      \<lparr>source = ''tps_ai_processor'', word_count = 5, char_count = 33,
       language_guess = ''English'',
       tags = [u ''fun'', u ''hello'', u ''world'', u ''testingword''],
       reading_time_minutes = 1, processed_at = now\<rparr>)"
  unfolding tps_ai_clean_def example_normalized Let_def example_tags example_words
    example_language
  by (simp add: py_round_div_def u_def)

text \<open>
  C5 (as amended). On the input \<open>Hello   world\t#fun #fun testingword\<close> the cleaned text
  is \<open>Hello world #fun #fun testingword\<close>, the word count 5, the language guess
  English and the reading time 1, as the specification says; the tags are
  \<open>fun\<close>, \<open>hello\<close>, \<open>world\<close>, \<open>testingword\<close>: after the hashtag, every word of
  five letters or more among the first five such words is a tag, not only the last.
\<close>

theorem tps_ai_clean_example:
  "fst (tps_ai_clean db now example_input) = u ''Hello world #fun #fun testingword'' \<and>
   tags (snd (tps_ai_clean db now example_input)) =
     [u ''fun'', u ''hello'', u ''world'', u ''testingword''] \<and>
   word_count (snd (tps_ai_clean db now example_input)) = 5 \<and>
   language_guess (snd (tps_ai_clean db now example_input)) = ''English'' \<and>
   reading_time_minutes (snd (tps_ai_clean db now example_input)) = 1"
  by (simp add: example_clean)

theorem tps_ai_clean_example_witness:
  "fst (tps_ai_clean ascii_db ''2024-01-01T00:00:00Z'' example_input) =
     u ''Hello world #fun #fun testingword'' \<and>
   tags (snd (tps_ai_clean ascii_db ''2024-01-01T00:00:00Z'' example_input)) =
     [u ''fun'', u ''hello'', u ''world'', u ''testingword''] \<and>
   word_count (snd (tps_ai_clean ascii_db ''2024-01-01T00:00:00Z'' example_input)) = 5"
  using tps_ai_clean_example [of ascii_db "''2024-01-01T00:00:00Z''"] by simp

text \<open>The tags the specification gives for the example are not the tags of the code.\<close>

theorem tps_ai_clean_example_tags_counterexample:
  "tags (snd (tps_ai_clean ascii_db ''2024-01-01T00:00:00Z'' example_input)) \<noteq>
     [u ''fun'', u ''testingword'']"
  by (simp add: example_clean u_def)

subsection \<open>The normalizer applied twice\<close>

text \<open>
  C6. The normalizer is not idempotent as the code stands: the statement that was to
  replace the curly quotes replaces the text \<open>quote_old\<close> by a double quote, and that
  replacement can bring a new \<open>quote_old\<close> together. On \<open>nested_quote_text\<close> the first
  pass gives \<open>quote_old\<close> and the second a lone double quote.
\<close>

theorem simple_normalize_twice_differs:
  "simple_normalize nested_quote_text = quote_old \<and>
   simple_normalize (simple_normalize nested_quote_text) = [34] \<and>
   simple_normalize (simple_normalize nested_quote_text) \<noteq> simple_normalize nested_quote_text"
  by (simp add: norm_eval nested_quote_text_def)

subsection \<open>The language guess\<close>

lemma re_search_set: "re_search cls text = (\<exists>c\<in>set text. cls c)"
  by (simp add: re_search_def list_ex_iff)

text \<open>
  C7 (as amended). The guess tests five classes of characters in a fixed order, and the
  first class with a character in the text decides: the Russian alphabet (U+0410 to
  U+044F, U+0401, U+0451) gives Russian; hiragana, katakana and the CJK ideographs
  (U+3041 to U+30FF, U+4E00 to U+9FFF) give Japanese/Chinese; then the Spanish set, the
  French set and the German set; with none it is English. In particular a text with a
  letter of the Russian alphabet is guessed Russian whatever else it contains.
\<close>

theorem infer_language_guess_priority:
  "infer_language_guess text =
     (if \<exists>c\<in>set text. (1040 \<le> c \<and> c \<le> 1103) \<or> c = 1025 \<or> c = 1105 then ''Russian''
      else if \<exists>c\<in>set text. (12353 \<le> c \<and> c \<le> 12543) \<or> (19968 \<le> c \<and> c \<le> 40959)
        then ''Japanese/Chinese''
      else if \<exists>c\<in>set text. c \<in> {225, 233, 237, 243, 250, 241, 252, 191, 161} then ''Spanish''
      else if \<exists>c\<in>set text.
          c \<in> {224, 226, 228, 233, 232, 234, 235, 238, 239, 244, 246, 249, 251, 252, 255, 231}
        then ''French''
      else if \<exists>c\<in>set text. c \<in> {228, 246, 252, 223} then ''German''
      else ''English'') \<and>
   ((1040 \<le> c \<and> c \<le> 1103) \<or> c = 1025 \<or> c = 1105 \<longrightarrow>
      infer_language_guess (before @ c # after) = ''Russian'')"
proof -
  have cyr: "cyrillic d = ((1040 \<le> d \<and> d \<le> 1103) \<or> d = 1025 \<or> d = 1105)" for d
    by (auto simp: cyrillic_def)
  have cjk: "cjk d = ((12353 \<le> d \<and> d \<le> 12543) \<or> (19968 \<le> d \<and> d \<le> 40959))" for d
    by (auto simp: cjk_def)
  have r1: "re_search cyrillic text =
      (\<exists>c\<in>set text. (1040 \<le> c \<and> c \<le> 1103) \<or> c = 1025 \<or> c = 1105)"
    by (simp only: re_search_set cyr)
  have r2: "re_search cjk text =
      (\<exists>c\<in>set text. (12353 \<le> c \<and> c \<le> 12543) \<or> (19968 \<le> c \<and> c \<le> 40959))"
    by (simp only: re_search_set cjk)
  have r3: "re_search (\<lambda>c. c \<in> set spanish_set) text =
      (\<exists>c\<in>set text. c \<in> {225, 233, 237, 243, 250, 241, 252, 191, 161})"
    by (simp add: re_search_set spanish_set_def)
  have r4: "re_search (\<lambda>c. c \<in> set french_set) text =
      (\<exists>c\<in>set text.
         c \<in> {224, 226, 228, 233, 232, 234, 235, 238, 239, 244, 246, 249, 251, 252, 255, 231})"
    by (simp add: re_search_set french_set_def)
  have r5: "re_search (\<lambda>c. c \<in> set german_set) text = (\<exists>c\<in>set text. c \<in> {228, 246, 252, 223})"
    by (simp add: re_search_set german_set_def)
  have chain: "infer_language_guess text =
     (if \<exists>c\<in>set text. (1040 \<le> c \<and> c \<le> 1103) \<or> c = 1025 \<or> c = 1105 then ''Russian''
      else if \<exists>c\<in>set text. (12353 \<le> c \<and> c \<le> 12543) \<or> (19968 \<le> c \<and> c \<le> 40959)
        then ''Japanese/Chinese''
      else if \<exists>c\<in>set text. c \<in> {225, 233, 237, 243, 250, 241, 252, 191, 161} then ''Spanish''
      else if \<exists>c\<in>set text.
          c \<in> {224, 226, 228, 233, 232, 234, 235, 238, 239, 244, 246, 249, 251, 252, 255, 231}
        then ''French''
      else if \<exists>c\<in>set text. c \<in> {228, 246, 252, 223} then ''German''
      else ''English'')"
    by (simp only: infer_language_guess_def r1 r2 r3 r4 r5)
  have first: "infer_language_guess (before @ c # after) = ''Russian''"
    if "(1040 \<le> c \<and> c \<le> 1103) \<or> c = 1025 \<or> c = 1105"
  proof -
    have "cyrillic c"
      using that by (simp only: cyr)
    then have "re_search cyrillic (before @ c # after)"
      by (auto simp: re_search_set)
    then show ?thesis
      by (simp add: infer_language_guess_def)
  qed
  show ?thesis
    using chain first by blast
qed

theorem infer_language_guess_priority_witness:
  "infer_language_guess (u ''Hola se'' @ [241] @ u ''or '' @ [1055, 1088, 1080, 1074, 1077, 1090]) =
     ''Russian'' \<and>
   infer_language_guess ([1025] @ [26085, 26412]) = ''Russian'' \<and>
   infer_language_guess (u ''caf'' @ [233] @ u '' '' @ [26085, 26412, 12354]) = ''Japanese/Chinese'' \<and>
   infer_language_guess (u ''caf'' @ [233]) = ''Spanish'' \<and>
   infer_language_guess (u ''d'' @ [233] @ u ''j'' @ [224]) = ''Spanish'' \<and>
   infer_language_guess (u ''voil'' @ [224]) = ''French'' \<and>
   infer_language_guess (u ''Stra'' @ [223] @ u ''e'') = ''German'' \<and>
   infer_language_guess (u ''plain text'') = ''English''"
  using infer_language_guess_priority
      [of "u ''Hola se'' @ [241] @ u ''or '' @ [1055, 1088, 1080, 1074, 1077, 1090]"
        1055 "u ''Hola se'' @ [241] @ u ''or ''" "[1088, 1080, 1074, 1077, 1090]"]
    infer_language_guess_priority [of "[1025] @ [26085, 26412]" 1025 "[]" "[26085, 26412]"]
    infer_language_guess_priority [of "u ''caf'' @ [233] @ u '' '' @ [26085, 26412, 12354]"]
    infer_language_guess_priority [of "u ''caf'' @ [233]"]
    infer_language_guess_priority [of "u ''d'' @ [233] @ u ''j'' @ [224]"]
    infer_language_guess_priority [of "u ''voil'' @ [224]"]
    infer_language_guess_priority [of "u ''Stra'' @ [223] @ u ''e''"]
    infer_language_guess_priority [of "u ''plain text''"]
  by (simp add: u_def)

text \<open>
  The class of the first test is the Russian alphabet, not the Cyrillic script: the
  Ukrainian letter U+0456 is a Cyrillic character, and a text with it is guessed
  English, or Spanish next to an n with tilde.
\<close>

theorem infer_language_guess_cyrillic_counterexample:
  "cyrillic_block 1110 \<and>
   infer_language_guess [1110] = ''English'' \<and>
   infer_language_guess (u ''se'' @ [241] @ u ''or '' @ [1110]) = ''Spanish''"
  by (simp add: cyrillic_block_def lang_eval u_def)

text \<open>
  C10. In a text whose characters beyond ASCII are German letters only (a, o, u with
  umlaut, sharp s, in either case), a u-umlaut makes the guess Spanish; without it an
  a-umlaut or o-umlaut makes it French; and the guess is German only when the text has a
  sharp s and no character of the Cyrillic, CJK, Spanish or French classes.
\<close>

theorem german_letters_guess:
  assumes "\<forall>c\<in>set text. c < 128 \<or> c \<in> {228, 246, 252, 223, 196, 214, 220, 7838}"
  shows "(252 \<in> set text \<longrightarrow> infer_language_guess text = ''Spanish'') \<and>
         (252 \<notin> set text \<and> (228 \<in> set text \<or> 246 \<in> set text) \<longrightarrow>
            infer_language_guess text = ''French'') \<and>
         (infer_language_guess text = ''German'' \<longrightarrow>
            223 \<in> set text \<and>
            \<not> (\<exists>c\<in>set text. cyrillic c \<or> cjk c \<or> c \<in> set spanish_set \<or> c \<in> set french_set))"
proof -
  have no_cyr: "\<not> (\<exists>c\<in>set text. cyrillic c)" and no_cjk: "\<not> (\<exists>c\<in>set text. cjk c)"
    using assms by (auto simp: cyrillic_def cjk_def)
  have spanish: "(\<exists>c\<in>set text. c \<in> set spanish_set) = (252 \<in> set text)"
    using assms by (auto simp: spanish_set_def)
  have french: "(\<exists>c\<in>set text. c \<in> set french_set) =
      (228 \<in> set text \<or> 246 \<in> set text \<or> 252 \<in> set text)"
    using assms by (auto simp: french_set_def)
  have german: "(\<exists>c\<in>set text. c \<in> set german_set) =
      (228 \<in> set text \<or> 246 \<in> set text \<or> 252 \<in> set text \<or> 223 \<in> set text)"
    using assms by (auto simp: german_set_def)
  have guess: "infer_language_guess text =
      (if 252 \<in> set text then ''Spanish''
       else if 228 \<in> set text \<or> 246 \<in> set text then ''French''
       else if 223 \<in> set text then ''German'' else ''English'')"
    by (simp add: infer_language_guess_def re_search_set no_cyr no_cjk spanish french german)
  show ?thesis
    unfolding guess using no_cyr no_cjk spanish french by (auto split: if_splits)
qed

theorem german_letters_guess_witness:
  "infer_language_guess (u ''Gr'' @ [252, 223] @ u ''e'') = ''Spanish'' \<and>
   infer_language_guess (u ''M'' @ [228] @ u ''dchen'') = ''French'' \<and>
   infer_language_guess (u ''Stra'' @ [223] @ u ''e'') = ''German'' \<and>
   223 \<in> set (u ''Stra'' @ [223] @ u ''e'')"
  using german_letters_guess [of "u ''Gr'' @ [252, 223] @ u ''e''"]
    german_letters_guess [of "u ''M'' @ [228] @ u ''dchen''"]
    german_letters_guess [of "u ''Stra'' @ [223] @ u ''e''"]
  by (simp add: lang_eval u_def)

subsection \<open>The reading time\<close>

lemma a_words_simps: "a_words 0 = [97]" "a_words (Suc n) = 97 # 32 # a_words n"
  by (simp_all add: a_words_def)

lemma a_words_set: "set (a_words n) \<subseteq> {97, 32}"
  by (induction n) (auto simp: a_words_simps)

lemma a_words_no_tab: "map (\<lambda>c. if c = 9 then 32 else c) (a_words n) = a_words n"
  by (induction n) (simp_all add: a_words_simps)

lemma a_words_dropWhile: "\<not> P 97 \<Longrightarrow> dropWhile P (a_words n) = a_words n"
  by (cases n) (simp_all add: a_words_simps)

lemma a_words_collapse: "collapse_spaces (a_words n) = a_words n"
  by (induction n) (simp_all add: a_words_simps space_or_nbsp_def a_words_dropWhile)

lemma newlines_id: "13 \<notin> set t \<Longrightarrow> newlines t = t"
  by (induction t rule: newlines.induct) auto

lemma replace_from_id: "c \<notin> set t \<Longrightarrow> replace_from (c # old) new t = t"
  by (induction t) auto

lemma a_words_strip: "py_strip (a_words n) = a_words n"
proof -
  have "dropWhile py_isspace (rev (a_words n)) = rev (a_words n)"
    by (simp add: a_words_def py_isspace_def)
  then show ?thesis
    by (simp add: py_strip_def a_words_dropWhile py_isspace_def)
qed

lemma a_words_normalize: "simple_normalize (a_words n) = a_words n"
proof -
  have "13 \<notin> set (a_words n)" "44 \<notin> set (a_words n)" "39 \<notin> set (a_words n)"
    using a_words_set [of n] by auto
  then show ?thesis
    by (simp add: simple_normalize_def a_words_no_tab a_words_collapse newlines_id
        a_words_strip py_replace_def quote_old_def replace_from_id)
qed

lemma a_words_count: "length (words db (a_words n)) = Suc n"
  by (induction n)
    (simp_all add: a_words_simps a_words_dropWhile is_word_def ascii_letter_def
      ascii_digit_def ascii_upper_def)

lemma a_words_reading_time:
  "word_count (snd (tps_ai_clean db now (a_words n))) = Suc n \<and>
   reading_time_minutes (snd (tps_ai_clean db now (a_words n))) =
     max 1 (py_round_div (Suc n) 200)"
  by (simp add: tps_ai_clean_def a_words_normalize a_words_count Let_def)

lemma py_round_div_200:
  "(w < 300 \<longrightarrow> max 1 (py_round_div w 200) = 1) \<and>
   (300 \<le> w \<longrightarrow> max 1 (py_round_div w 200) = py_round_div w 200) \<and>
   200 * py_round_div w 200 \<le> w + 100 \<and> w \<le> 200 * py_round_div w 200 + 100 \<and>
   (w mod 200 = 100 \<longrightarrow> even (py_round_div w 200))"
proof -
  define q r where "q = w div 200" and "r = w mod 200"
  have w: "w = 200 * q + r" and r: "r < 200"
    by (simp_all add: q_def r_def)
  have p: "py_round_div w 200 =
      (if r < 100 then q else if 100 < r then q + 1 else if even q then q else q + 1)"
    by (simp add: py_round_div_def Let_def q_def r_def)
  show ?thesis
    unfolding p using r by (auto simp: w)
qed

text \<open>
  C8 (as amended). The reading time is the word count divided by 200 and rounded to the
  nearest integer, a half going to the even neighbour, with 1 in the place of 0. It is
  1 below 300 words, and at least 1 for every text, the empty one included.
\<close>

theorem reading_time_nearest:
  "1 \<le> reading_time_minutes (snd (tps_ai_clean db now text)) \<and>
   (word_count (snd (tps_ai_clean db now text)) < 300 \<longrightarrow>
      reading_time_minutes (snd (tps_ai_clean db now text)) = 1) \<and>
   (300 \<le> word_count (snd (tps_ai_clean db now text)) \<longrightarrow>
      200 * reading_time_minutes (snd (tps_ai_clean db now text))
        \<le> word_count (snd (tps_ai_clean db now text)) + 100 \<and>
      word_count (snd (tps_ai_clean db now text))
        \<le> 200 * reading_time_minutes (snd (tps_ai_clean db now text)) + 100 \<and>
      (word_count (snd (tps_ai_clean db now text)) mod 200 = 100 \<longrightarrow>
         even (reading_time_minutes (snd (tps_ai_clean db now text)))))"
proof -
  define w where "w = length (words db (simple_normalize text))"
  have wc: "word_count (snd (tps_ai_clean db now text)) = w"
    and rt: "reading_time_minutes (snd (tps_ai_clean db now text)) = max 1 (py_round_div w 200)"
    by (simp_all add: tps_ai_clean_def Let_def w_def)
  show ?thesis
    unfolding wc rt using py_round_div_200 [of w] by auto
qed

theorem reading_time_nearest_witness:
  "reading_time_minutes (snd (tps_ai_clean ascii_db [] [])) = 1 \<and>
   word_count (snd (tps_ai_clean ascii_db [] (a_words 299))) = 300 \<and>
   reading_time_minutes (snd (tps_ai_clean ascii_db [] (a_words 299))) = 2"
proof -
  have empty: "word_count (snd (tps_ai_clean ascii_db [] [])) = 0"
    by (simp add: tps_ai_clean_def norm_eval)
  have many: "word_count (snd (tps_ai_clean ascii_db [] (a_words 299))) = 300"
    using a_words_reading_time [of ascii_db "[]" 299] by simp
  show ?thesis
    using reading_time_nearest [of ascii_db "[]" "[]"]
      reading_time_nearest [of ascii_db "[]" "a_words 299"] empty many
    by auto
qed

text \<open>
  With 201 words the reading time is 1, and the ceiling of 201 / 200 is 2.
\<close>

theorem reading_time_ceiling_counterexample:
  "word_count (snd (tps_ai_clean ascii_db [] (a_words 200))) = 201 \<and>
   reading_time_minutes (snd (tps_ai_clean ascii_db [] (a_words 200))) = 1 \<and>
   max 1 (ceil_div 201 200) = 2"
  by (simp add: a_words_reading_time py_round_div_def ceil_div_def)

subsection \<open>The normalizer on texts without a comma\<close>

text \<open>
  The steps before the last statement reach a text that they leave as it is: no tab,
  carriage return or no-break space, no two spaces in a row, no white space at either
  end. The text \<open>quote_old\<close> starts with a comma, so on a text without a comma the
  last statement changes nothing, and there the normalizer applied twice is the
  normalizer applied once. Only the replacement of \<open>quote_old\<close> stands in the way.
\<close>

lemma replace_same: "replace_from [c] [c] t = t"
  by (induction t) auto

lemma hd_collapse: "t \<noteq> [] \<Longrightarrow> \<not> space_or_nbsp (hd t) \<Longrightarrow> collapse_spaces t \<noteq> [] \<and> hd (collapse_spaces t) = hd t"
  by (cases t) auto

lemma set_collapse: "set (collapse_spaces t) \<subseteq> insert 32 (set t)"
proof (induction t rule: collapse_spaces.induct)
  case 1
  show ?case by simp
next
  case (2 c cs)
  show ?case
  proof (cases "space_or_nbsp c")
    case True
    have "set (dropWhile space_or_nbsp cs) \<subseteq> set cs"
      by (auto dest: set_dropWhileD)
    with 2(1) [OF True] True show ?thesis
      by auto
  next
    case False
    with 2(2) [OF False] show ?thesis
      by auto
  qed
qed

lemma collapse_normal:
  "160 \<notin> set (collapse_spaces t) \<and> \<not> sublist [32, 32] (collapse_spaces t)"
proof (induction t rule: collapse_spaces.induct)
  case 1
  show ?case by simp
next
  case (2 c cs)
  show ?case
  proof (cases "space_or_nbsp c")
    case True
    define r where "r = dropWhile space_or_nbsp cs"
    have ih: "160 \<notin> set (collapse_spaces r) \<and> \<not> sublist [32, 32] (collapse_spaces r)"
      unfolding r_def using 2(1) [OF True] .
    have "r = [] \<or> \<not> space_or_nbsp (hd r)"
      using hd_dropWhile [of space_or_nbsp cs] by (auto simp: r_def)
    then have "\<not> prefix [32] (collapse_spaces r)"
    proof
      assume "r = []"
      then show ?thesis by simp
    next
      assume "\<not> space_or_nbsp (hd r)"
      show ?thesis
      proof (cases "r = []")
        case True
        then show ?thesis by simp
      next
        case False
        from hd_collapse [OF False \<open>\<not> space_or_nbsp (hd r)\<close>] \<open>\<not> space_or_nbsp (hd r)\<close>
        show ?thesis
          by (cases "collapse_spaces r") (auto simp: space_or_nbsp_def)
      qed
    qed
    then have "\<not> prefix [32, 32] (32 # collapse_spaces r)"
      by simp
    with ih True show ?thesis
      by (simp add: r_def [symmetric] sublist_Cons_right)
  next
    case False
    with 2(2) [OF False] show ?thesis
      by (auto simp: sublist_Cons_right space_or_nbsp_def)
  qed
qed

lemma collapse_fixed:
  "160 \<notin> set t \<Longrightarrow> \<not> sublist [32, 32] t \<Longrightarrow> collapse_spaces t = t"
proof (induction t rule: collapse_spaces.induct)
  case 1
  show ?case by simp
next
  case (2 c cs)
  have tail: "160 \<notin> set cs" "\<not> sublist [32, 32] cs"
    using "2.prems" by (auto simp: sublist_Cons_right)
  show ?case
  proof (cases "space_or_nbsp c")
    case True
    then have c: "c = 32"
      using "2.prems"(1) by (auto simp: space_or_nbsp_def)
    have "cs = [] \<or> \<not> space_or_nbsp (hd cs)"
      using "2.prems" c by (cases cs) (auto simp: sublist_Cons_right space_or_nbsp_def)
    then have same: "dropWhile space_or_nbsp cs = cs"
      by (cases cs) auto
    show ?thesis
      using 2(1) [OF True] tail True c by (simp add: same)
  next
    case False
    with 2(2) [OF False] tail show ?thesis
      by simp
  qed
qed

lemma newlines_no_cr: "13 \<notin> set (newlines t)"
  by (induction t rule: newlines.induct) simp_all

lemma set_newlines: "set (newlines t) \<subseteq> insert 10 (set t)"
proof (induction t rule: newlines.induct)
  case 1
  show ?case by simp
next
  case (2 c)
  show ?case by simp
next
  case (3 c d cs)
  show ?case
  proof (cases "c = 13")
    case True
    with 3(1,2) show ?thesis
      by (cases "d = 10") auto
  next
    case False
    with 3(3) show ?thesis
      by auto
  qed
qed

lemma newlines_no_pair: "\<not> sublist [32, 32] t \<Longrightarrow> \<not> sublist [32, 32] (newlines t)"
proof (induction t rule: newlines.induct)
  case 1
  show ?case by simp
next
  case (2 c)
  show ?case by (simp add: sublist_Cons_right)
next
  case (3 c d cs)
  have tails: "\<not> sublist [32, 32] (d # cs)" "\<not> sublist [32, 32] cs"
    using "3.prems" by (auto simp: sublist_Cons_right)
  show ?case
  proof (cases "c = 13")
    case True
    then show ?thesis
      using 3(1,2) tails by (auto simp: sublist_Cons_right)
  next
    case False
    have "\<not> prefix [32, 32] (c # newlines (d # cs))"
      using "3.prems" by (cases cs) (auto simp: sublist_Cons_right)
    then show ?thesis
      using 3(3) [OF False] tails False by (simp add: sublist_Cons_right)
  qed
qed

lemma strip_sublist: "sublist (py_strip t) t"
proof -
  define d where "d = dropWhile py_isspace t"
  have "t = takeWhile py_isspace t @ d"
    by (simp add: d_def)
  moreover have "rev d = takeWhile py_isspace (rev d) @ dropWhile py_isspace (rev d)"
    by simp
  then have "d = py_strip t @ rev (takeWhile py_isspace (rev d))"
    unfolding py_strip_def d_def [symmetric] by (metis rev_append rev_rev_ident)
  ultimately have "t = takeWhile py_isspace t @ py_strip t @ rev (takeWhile py_isspace (rev d))"
    by simp
  then show ?thesis
    unfolding sublist_def by blast
qed

lemma strip_ends:
  "py_strip t = [] \<or> (\<not> py_isspace (hd (py_strip t)) \<and> \<not> py_isspace (last (py_strip t)))"
proof (cases "py_strip t = []")
  case True
  then show ?thesis by simp
next
  case False
  define d where "d = dropWhile py_isspace t"
  define e where "e = dropWhile py_isspace (rev d)"
  have y: "py_strip t = rev e"
    by (simp add: py_strip_def d_def e_def)
  have e: "e \<noteq> []"
    using False y by simp
  then have d: "d \<noteq> []"
    unfolding e_def by auto
  have "\<not> py_isspace (hd e)"
    unfolding e_def using e by (simp add: hd_dropWhile e_def)
  then have last: "\<not> py_isspace (last (py_strip t))"
    using e by (simp add: y last_rev)
  have "suffix e (rev d)"
    unfolding e_def by (rule suffix_dropWhile)
  then obtain p where "rev d = p @ e"
    unfolding suffix_def by blast
  then have "last e = last (rev d)"
    using e by simp
  then have "hd (py_strip t) = hd d"
    using e d by (simp add: y hd_rev last_rev)
  moreover have "\<not> py_isspace (hd d)"
    unfolding d_def using d by (simp add: hd_dropWhile d_def)
  ultimately show ?thesis
    using last by simp
qed

lemma strip_fixed:
  "t = [] \<or> (\<not> py_isspace (hd t) \<and> \<not> py_isspace (last t)) \<Longrightarrow> py_strip t = t"
proof (cases "t = []")
  case True
  then show ?thesis by (simp add: py_strip_def)
next
  case False
  assume "t = [] \<or> (\<not> py_isspace (hd t) \<and> \<not> py_isspace (last t))"
  with False have ends: "\<not> py_isspace (hd t)" "\<not> py_isspace (last t)"
    by auto
  have "dropWhile py_isspace t = t"
    using False ends(1) by (cases t) auto
  moreover have "dropWhile py_isspace (rev t) = rev t"
    using False ends(2) by (cases "rev t") (auto simp: hd_rev dest: arg_cong [where f = hd])
  ultimately show ?thesis
    by (simp add: py_strip_def)
qed

lemma whitespace_steps_normal:
  fixes t :: pystr
  defines "w \<equiv> py_strip (newlines (collapse_spaces (map (\<lambda>c. if c = 9 then 32 else c) t)))"
  shows "set w \<subseteq> insert 32 (insert 10 (set t))"
    and "9 \<notin> set w" and "13 \<notin> set w" and "160 \<notin> set w" and "\<not> sublist [32, 32] w"
proof -
  define a where "a = map (\<lambda>c. if c = 9 then 32 else c) t"
  define b where "b = collapse_spaces a"
  define n where "n = newlines b"
  have w: "w = py_strip n"
    by (simp add: w_def a_def b_def n_def)
  have a: "set a \<subseteq> insert 32 (set t)" "9 \<notin> set a"
    by (auto simp: a_def)
  have b: "set b \<subseteq> insert 32 (set a)" "160 \<notin> set b" "\<not> sublist [32, 32] b"
    unfolding b_def using set_collapse [of a] collapse_normal [of a] by auto
  have n: "set n \<subseteq> insert 10 (set b)" "13 \<notin> set n" "\<not> sublist [32, 32] n"
    unfolding n_def using set_newlines [of b] newlines_no_cr [of b] newlines_no_pair [OF b(3)]
    by auto
  have sub: "sublist w n"
    unfolding w by (rule strip_sublist)
  then have ws: "set w \<subseteq> set n"
    by (rule set_mono_sublist)
  show "set w \<subseteq> insert 32 (insert 10 (set t))"
    using ws n(1) b(1) a(1) by blast
  have "9 \<notin> set b"
    using b(1) a(2) by (auto dest: subsetD)
  then have "9 \<notin> set n"
    using n(1) by (auto dest: subsetD)
  then show "9 \<notin> set w"
    using ws by (auto dest: subsetD)
  show "13 \<notin> set w"
    using ws n(2) by (auto dest: subsetD)
  have "160 \<notin> set n"
    using n(1) b(2) by (auto dest: subsetD)
  then show "160 \<notin> set w"
    using ws by (auto dest: subsetD)
  show "\<not> sublist [32, 32] w"
    using sub n(3) sublist_order.order_trans by blast
qed

lemma whitespace_steps_idem:
  fixes t :: pystr
  defines "w \<equiv> py_strip (newlines (collapse_spaces (map (\<lambda>c. if c = 9 then 32 else c) t)))"
  shows "py_strip (newlines (collapse_spaces (map (\<lambda>c. if c = 9 then 32 else c) w))) = w"
proof -
  note nf = whitespace_steps_normal [of t, folded w_def]
  have "map (\<lambda>c. if c = 9 then 32 else c) w = w"
    using nf(2) by (intro map_idI) auto
  moreover have "collapse_spaces w = w"
    using nf(4,5) by (rule collapse_fixed)
  moreover have "newlines w = w"
    using nf(3) by (rule newlines_id)
  moreover have "py_strip w = w"
    unfolding w_def using strip_ends by (intro strip_fixed)
  ultimately show ?thesis
    by simp
qed

lemma simple_normalize_without_comma:
  assumes "44 \<notin> set t"
  shows "simple_normalize t =
           py_strip (newlines (collapse_spaces (map (\<lambda>c. if c = 9 then 32 else c) t)))"
proof -
  have "44 \<notin> set (py_strip (newlines (collapse_spaces (map (\<lambda>c. if c = 9 then 32 else c) t))))"
    using whitespace_steps_normal(1) [of t] assms by auto
  then show ?thesis
    by (simp add: simple_normalize_def py_replace_def quote_old_def replace_from_id replace_same)
qed

lemma simple_normalize_idem_without_comma:
  assumes "44 \<notin> set t"
  shows "simple_normalize (simple_normalize t) = simple_normalize t"
proof -
  have "44 \<notin> set (simple_normalize t)"
    unfolding simple_normalize_without_comma [OF assms]
    using whitespace_steps_normal(1) [of t] assms by auto
  from simple_normalize_without_comma [OF this] show ?thesis
    unfolding simple_normalize_without_comma [OF assms] by (simp add: whitespace_steps_idem)
qed

subsection \<open>The tags\<close>

lemma set_fold_add_new: "set (fold add_new ys acc) = set acc \<union> set ys"
  by (induction ys arbitrary: acc) (auto simp: add_new_def)

lemma distinct_fold_add_new: "distinct acc \<Longrightarrow> distinct (fold add_new ys acc)"
  by (induction ys arbitrary: acc) (auto simp: add_new_def)

lemma set_fromkeys: "set (fromkeys xs) = set xs"
  by (simp add: fromkeys_def set_fold_add_new)

lemma distinct_fromkeys: "distinct (fromkeys xs)"
  by (simp add: fromkeys_def distinct_fold_add_new)

lemma fromkeys_snoc: "fromkeys (xs @ [x]) = add_new x (fromkeys xs)"
  by (simp add: fromkeys_def)

lemma fromkeys_add_new: "fromkeys (add_new y zs) = add_new y (fromkeys zs)"
  by (simp add: add_new_def fromkeys_snoc set_fromkeys)

text \<open>The loop that skips the tokens already present, then \<open>dict.fromkeys\<close>: the same as \<open>dict.fromkeys\<close> of the two lists one after the other.\<close>

lemma fromkeys_fold_add_new: "fromkeys (fold add_new ys xs) = fromkeys (xs @ ys)"
proof (induction ys rule: rev_induct)
  case Nil
  show ?case by simp
next
  case (snoc y ys)
  have "fromkeys (fold add_new (ys @ [y]) xs) = add_new y (fromkeys (fold add_new ys xs))"
    by (simp add: fromkeys_add_new)
  also have "\<dots> = add_new y (fromkeys (xs @ ys))"
    by (simp only: snoc.IH)
  also have "\<dots> = fromkeys (xs @ ys @ [y])"
    using fromkeys_snoc [of "xs @ ys" y] by simp
  finally show ?case .
qed

lemma first_seen_snoc:
  "first_seen (xs @ [x]) = first_seen xs @ (if x \<in> set xs then [] else [x])"
proof -
  have upt: "[0..<length (xs @ [x])] = [0..<length xs] @ [length xs]"
    by simp
  have keep: "filter (\<lambda>i. (xs @ [x]) ! i \<notin> set (take i (xs @ [x]))) [0..<length xs] =
      filter (\<lambda>i. xs ! i \<notin> set (take i xs)) [0..<length xs]"
    by (rule filter_cong) (auto simp: nth_append)
  have same: "map (\<lambda>i. (xs @ [x]) ! i) (filter (\<lambda>i. xs ! i \<notin> set (take i xs)) [0..<length xs]) =
      map (\<lambda>i. xs ! i) (filter (\<lambda>i. xs ! i \<notin> set (take i xs)) [0..<length xs])"
    by (rule map_cong) (auto simp: nth_append)
  have "first_seen (xs @ [x]) =
      map (\<lambda>i. (xs @ [x]) ! i) (filter (\<lambda>i. xs ! i \<notin> set (take i xs)) [0..<length xs]) @
      map (\<lambda>i. (xs @ [x]) ! i)
        (filter (\<lambda>i. (xs @ [x]) ! i \<notin> set (take i (xs @ [x]))) [length xs])"
    unfolding first_seen_def upt filter_append map_append keep ..
  also have "\<dots> = first_seen xs @ (if x \<in> set xs then [] else [x])"
    unfolding same by (simp add: first_seen_def)
  finally show ?thesis .
qed

lemma fromkeys_first_seen: "fromkeys xs = first_seen xs"
proof (induction xs rule: rev_induct)
  case Nil
  show ?case by (simp add: fromkeys_def first_seen_def)
next
  case (snoc x xs)
  have "set (first_seen xs) = set xs"
    using set_fromkeys [of xs] by (simp add: snoc.IH)
  then show ?case
    by (simp add: fromkeys_snoc first_seen_snoc snoc.IH add_new_def)
qed

lemma tokens_from_letters:
  "tok \<in> set (tokens_from db prev t) \<Longrightarrow>
     5 \<le> length tok \<and> set tok \<subseteq> set t \<and> (\<forall>c\<in>set tok. ascii_letter c)"
proof (induction db prev t rule: tokens_from.induct)
  case (1 db prev)
  then show ?case by simp
next
  case (2 db prev c cs)
  define run where "run = takeWhile ascii_letter (c # cs)"
  define rest where "rest = dropWhile ascii_letter (c # cs)"
  define found where
    "found = (\<not> prev \<and> 5 \<le> length run \<and> (rest = [] \<or> \<not> is_word db (hd rest)))"
  have run: "set run \<subseteq> set (c # cs)" "\<forall>x\<in>set run. ascii_letter x"
    unfolding run_def by (auto dest: set_takeWhileD)
  have rest: "set rest \<subseteq> set (c # cs)"
    unfolding rest_def by (auto dest: set_dropWhileD)
  have unfold: "tokens_from db prev (c # cs) =
      (if found then run # tokens_from db True rest else tokens_from db (is_word db c) cs)"
    unfolding run_def rest_def found_def by (simp only: tokens_from.simps Let_def)
  have mem: "tok \<in> set (if found then run # tokens_from db True rest
      else tokens_from db (is_word db c) cs)"
    using "2.prems" by (simp only: unfold)
  show ?case
  proof (cases found)
    case True
    then have "tok = run \<or> tok \<in> set (tokens_from db True rest)"
      using mem by auto
    then show ?thesis
    proof
      assume "tok = run"
      then show ?thesis
        using True run by (simp add: found_def)
    next
      assume "tok \<in> set (tokens_from db True rest)"
      then have "5 \<le> length tok \<and> set tok \<subseteq> set rest \<and> (\<forall>c\<in>set tok. ascii_letter c)"
        using "2.IH"(1) [OF run_def rest_def] True unfolding found_def by blast
      then show ?thesis
        using rest by blast
    qed
  next
    case False
    then have "tok \<in> set (tokens_from db (is_word db c) cs)"
      using mem by simp
    then have "5 \<le> length tok \<and> set tok \<subseteq> set cs \<and> (\<forall>c\<in>set tok. ascii_letter c)"
      using "2.IH"(2) [OF run_def rest_def] False unfolding found_def by blast
    then show ?thesis
      by auto
  qed
qed

lemma py_lower_not_upper:
  assumes "\<forall>t i. 128 \<le> t ! i \<longrightarrow> (\<forall>c\<in>set (uni_lower db t i). \<not> ascii_upper c)"
  shows "\<forall>c\<in>set (py_lower db t). \<not> ascii_upper c"
proof
  fix c
  assume "c \<in> set (py_lower db t)"
  then obtain i where c: "c \<in> set (lower_at db t i)"
    by (auto simp: py_lower_def)
  show "\<not> ascii_upper c"
  proof (cases "t ! i < 128")
    case True
    with c show ?thesis
      by (auto simp: lower_at_def Let_def ascii_upper_def split: if_splits)
  next
    case False
    with c have "c \<in> set (uni_lower db t i)" "128 \<le> t ! i"
      by (auto simp: lower_at_def Let_def)
    with assms show ?thesis
      by blast
  qed
qed

text \<open>
  C4. For every text the list of tags has at most 10 elements and no duplicates, and it
  is the first 10 of: the hashtag matches in their order, followed by the first five
  tokens in their order, each element kept where it is first seen (so a token already
  present is skipped). Every token is a run of five or more ASCII letters of the text in
  lower case; the letters are lower-case ones as long as the lower case of a character
  beyond ASCII holds no ASCII capital, which is so in Unicode.
\<close>

theorem extract_tags_first_seen:
  "length (extract_tags db text) \<le> 10 \<and> distinct (extract_tags db text) \<and>
   extract_tags db text =
     take 10 (first_seen (hashtags db text @ take 5 (tokens_from db False (py_lower db text)))) \<and>
   (\<forall>tok\<in>set (tokens_from db False (py_lower db text)).
      5 \<le> length tok \<and> (\<forall>c\<in>set tok. ascii_letter c)) \<and>
   ((\<forall>t i. 128 \<le> t ! i \<longrightarrow> (\<forall>c\<in>set (uni_lower db t i). \<not> ascii_upper c)) \<longrightarrow>
    (\<forall>tok\<in>set (tokens_from db False (py_lower db text)). \<forall>c\<in>set tok. 97 \<le> c \<and> c \<le> 122))"
proof -
  have eq: "extract_tags db text =
      take 10 (first_seen (hashtags db text @ take 5 (tokens_from db False (py_lower db text))))"
    by (simp add: extract_tags_def Let_def fromkeys_fold_add_new flip: fromkeys_first_seen)
  have dist: "distinct (extract_tags db text)"
    by (simp add: extract_tags_def Let_def distinct_fromkeys)
  have len: "length (extract_tags db text) \<le> 10"
    by (simp add: extract_tags_def Let_def)
  have letters: "\<forall>tok\<in>set (tokens_from db False (py_lower db text)).
      5 \<le> length tok \<and> (\<forall>c\<in>set tok. ascii_letter c)"
    using tokens_from_letters by blast
  have lower: "\<forall>tok\<in>set (tokens_from db False (py_lower db text)).
      \<forall>c\<in>set tok. 97 \<le> c \<and> c \<le> 122"
    if "\<forall>t i. 128 \<le> t ! i \<longrightarrow> (\<forall>c\<in>set (uni_lower db t i). \<not> ascii_upper c)"
  proof (intro ballI)
    fix tok c
    assume tok: "tok \<in> set (tokens_from db False (py_lower db text))" and c: "c \<in> set tok"
    from tokens_from_letters [OF tok] c have "ascii_letter c" "c \<in> set (py_lower db text)"
      by auto
    moreover have "\<not> ascii_upper c"
      using py_lower_not_upper [OF that, of "text"] \<open>c \<in> set (py_lower db text)\<close> by blast
    ultimately show "97 \<le> c \<and> c \<le> 122"
      by (simp add: ascii_letter_def)
  qed
  show ?thesis
    using eq dist len letters lower by blast
qed

theorem extract_tags_first_seen_witness:
  "extract_tags ascii_db (u ''#Fun Hello #fun world hello'') =
     [u ''Fun'', u ''fun'', u ''hello'', u ''world''] \<and>
   take 10 (first_seen (hashtags ascii_db (u ''#Fun Hello #fun world hello'') @
     take 5 (tokens_from ascii_db False (py_lower ascii_db (u ''#Fun Hello #fun world hello''))))) =
     [u ''Fun'', u ''fun'', u ''hello'', u ''world''] \<and>
   tokens_from ascii_db False (py_lower ascii_db (u ''#Fun Hello #fun world hello'')) =
     [u ''hello'', u ''world'', u ''hello''] \<and>
   list_all (list_all (\<lambda>c. 97 \<le> c \<and> c \<le> 122))
     (tokens_from ascii_db False (py_lower ascii_db (u ''#Fun Hello #fun world hello'')))"
proof -
  have low: "\<forall>t i. 128 \<le> t ! i \<longrightarrow> (\<forall>c\<in>set (uni_lower ascii_db t i). \<not> ascii_upper c)"
    by (simp add: ascii_db_def ascii_upper_def)
  have tags: "extract_tags ascii_db (u ''#Fun Hello #fun world hello'') =
      [u ''Fun'', u ''fun'', u ''hello'', u ''world'']"
    by (simp add: extract_tags_def text_eval Let_def)
  have toks: "tokens_from ascii_db False (py_lower ascii_db (u ''#Fun Hello #fun world hello'')) =
      [u ''hello'', u ''world'', u ''hello'']"
    by (simp add: text_eval Let_def)
  show ?thesis
    using extract_tags_first_seen [of ascii_db "u ''#Fun Hello #fun world hello''"] low tags
    by (simp add: toks list_all_iff)
qed

section \<open>Properties of the database operations\<close>

text \<open>
  A new key is larger than every key present; one step of the loop either marks the
  entry as failed and leaves the cleaned entries alone, or adds one cleaned entry for it
  and marks it processed; \<open>db_inv\<close> holds of the empty database and is kept by
  \<open>add_raw\<close> and by \<open>process_pending\<close>.
\<close>

lemma fold_max_ge: "x \<in> set ids \<Longrightarrow> x \<le> fold max ids (s::nat)"
proof (induction ids arbitrary: s)
  case Nil
  then show ?case by simp
next
  case (Cons i ids)
  have mono: "s \<le> fold max ids s" for s :: nat
    by (induction ids arbitrary: s) (auto intro: order_trans [OF max.cobounded2])
  show ?case
  proof (cases "x = i")
    case True
    then show ?thesis
      using mono [of "max i s"] by simp
  next
    case False
    with Cons show ?thesis by simp
  qed
qed

lemma next_rowid_fresh: "next_rowid s ids \<notin> set ids"
  using fold_max_ge [of "next_rowid s ids" ids s] by (auto simp: next_rowid_def)

lemma cleaned_for_empty_iff: "(cleaned_for c k = []) = (k \<notin> set (map ce_raw_id (cleaned_entries c)))"
  by (auto simp: cleaned_for_def filter_empty_conv)

lemma db_inv_empty: "db_inv empty_db"
  by (simp add: db_inv_def empty_db_def)

lemma db_inv_add_raw:
  assumes "db_inv c"
  shows "db_inv (fst (add_raw c t now))"
proof -
  define i where "i = next_rowid (raw_seq c) (map raw_id (raw_entries c))"
  have fresh: "i \<notin> set (map raw_id (raw_entries c))"
    unfolding i_def by (rule next_rowid_fresh)
  then have none: "cleaned_for c i = []"
    using assms by (auto simp: cleaned_for_empty_iff db_inv_def)
  have raws: "raw_entries (fst (add_raw c t now)) = raw_entries c @
      [\<lparr>raw_id = i, raw_text = t, raw_created_at = now, status = ''pending''\<rparr>]"
    and cls: "cleaned_entries (fst (add_raw c t now)) = cleaned_entries c"
    by (simp_all add: add_raw_def Let_def i_def)
  have cf: "cleaned_for (fst (add_raw c t now)) k = cleaned_for c k" for k
    by (simp add: cleaned_for_def cls)
  show ?thesis
    unfolding db_inv_def raws cls cf using assms fresh none
    by (auto simp: db_inv_def)
qed

lemma process_row_cases:
  "(raw_entries (fst (process_row clean now r (c, ok, err))) =
      map (\<lambda>x. if raw_id x = raw_id r then x\<lparr>status := ''error''\<rparr> else x) (raw_entries c) \<and>
    cleaned_entries (fst (process_row clean now r (c, ok, err))) = cleaned_entries c \<and>
    snd (process_row clean now r (c, ok, err)) = (ok, Suc err) \<and>
    (isl (clean (fst (now (raw_id r))) (raw_text r)) \<or>
     raw_id r \<in> set (map ce_raw_id (cleaned_entries c)) \<or>
     raw_id r \<notin> set (map raw_id (raw_entries c))))
   \<or>
   (\<not> isl (clean (fst (now (raw_id r))) (raw_text r)) \<and>
    raw_id r \<notin> set (map ce_raw_id (cleaned_entries c)) \<and>
    raw_id r \<in> set (map raw_id (raw_entries c)) \<and>
    raw_entries (fst (process_row clean now r (c, ok, err))) =
      map (\<lambda>x. if raw_id x = raw_id r then x\<lparr>status := ''processed''\<rparr> else x) (raw_entries c) \<and>
    (\<exists>e. cleaned_entries (fst (process_row clean now r (c, ok, err))) = cleaned_entries c @ [e] \<and>
         ce_raw_id e = raw_id r) \<and>
    snd (process_row clean now r (c, ok, err)) = (Suc ok, err))"
  by (auto simp: process_row_def insert_cleaned_def set_status_def Let_def split: sum.splits prod.splits)

lemma process_row_ids:
  "map raw_id (raw_entries (fst (process_row clean now r (c, ok, err)))) = map raw_id (raw_entries c)"
  using process_row_cases [of clean now r c ok err] by (auto simp: comp_def)

lemma process_row_other:
  "k \<noteq> raw_id r \<Longrightarrow> cleaned_for (fst (process_row clean now r (c, ok, err))) k = cleaned_for c k"
  using process_row_cases [of clean now r c ok err] by (auto simp: cleaned_for_def)

lemma db_inv_process_row:
  assumes inv: "db_inv c" and none: "cleaned_for c (raw_id r) = []"
    and mem: "raw_id r \<in> set (map raw_id (raw_entries c))"
  shows "db_inv (fst (process_row clean now r (c, ok, err)))"
proof -
  define c' where "c' = fst (process_row clean now r (c, ok, err))"
  have ids: "map raw_id (raw_entries c') = map raw_id (raw_entries c)"
    unfolding c'_def by (rule process_row_ids)
  consider
    (failed) "raw_entries c' =
        map (\<lambda>x. if raw_id x = raw_id r then x\<lparr>status := ''error''\<rparr> else x) (raw_entries c)"
      "cleaned_entries c' = cleaned_entries c"
  | (succeeded) e where "raw_entries c' =
        map (\<lambda>x. if raw_id x = raw_id r then x\<lparr>status := ''processed''\<rparr> else x) (raw_entries c)"
      "cleaned_entries c' = cleaned_entries c @ [e]" "ce_raw_id e = raw_id r"
    using process_row_cases [of clean now r c ok err] unfolding c'_def by blast
  then have "db_inv c'"
  proof cases
    case failed
    have cf: "cleaned_for c' k = cleaned_for c k" for k
      by (simp add: cleaned_for_def failed)
    show ?thesis
      unfolding db_inv_def ids cf
      using inv none by (auto simp: db_inv_def failed)
  next
    case succeeded
    have cf: "cleaned_for c' k = cleaned_for c k @ (if k = raw_id r then [e] else [])" for k
      by (simp add: cleaned_for_def succeeded)
    show ?thesis
      unfolding db_inv_def ids cf
      using inv none mem by (auto simp: db_inv_def succeeded)
  qed
  then show ?thesis
    by (simp add: c'_def)
qed

lemma db_inv_fold:
  assumes "db_inv c" "distinct (map raw_id rs)"
    and "\<forall>r\<in>set rs. raw_id r \<in> set (map raw_id (raw_entries c)) \<and> cleaned_for c (raw_id r) = []"
  shows "db_inv (fst (fold (process_row clean now) rs (c, ok, err)))"
  using assms
proof (induction rs arbitrary: c ok err)
  case Nil
  then show ?case by simp
next
  case (Cons r rs)
  obtain c1 ok1 err1 where step: "process_row clean now r (c, ok, err) = (c1, ok1, err1)"
    by (cases "process_row clean now r (c, ok, err)") auto
  have c1: "c1 = fst (process_row clean now r (c, ok, err))"
    by (simp add: step)
  have inv1: "db_inv c1"
    unfolding c1 using Cons.prems by (intro db_inv_process_row) auto
  have ids1: "map raw_id (raw_entries c1) = map raw_id (raw_entries c)"
    unfolding c1 by (rule process_row_ids)
  have rest: "\<forall>x\<in>set rs. raw_id x \<in> set (map raw_id (raw_entries c1)) \<and> cleaned_for c1 (raw_id x) = []"
  proof
    fix x
    assume x: "x \<in> set rs"
    then have "raw_id x \<noteq> raw_id r"
      using Cons.prems(2) by (auto simp: image_iff)
    then have "cleaned_for c1 (raw_id x) = cleaned_for c (raw_id x)"
      unfolding c1 by (rule process_row_other)
    then show "raw_id x \<in> set (map raw_id (raw_entries c1)) \<and> cleaned_for c1 (raw_id x) = []"
      using Cons.prems(3) x by (simp add: ids1)
  qed
  have "db_inv (fst (fold (process_row clean now) rs (c1, ok1, err1)))"
    using inv1 Cons.prems(2) rest by (intro Cons.IH) auto
  then show ?case
    by (simp add: step)
qed

lemma pending_rows_set:
  "set (pending_rows c) = {r \<in> set (raw_entries c). status r = ''pending''}"
  by (auto simp: pending_rows_def)

lemma pending_rows_distinct:
  "distinct (map raw_id (raw_entries c)) \<Longrightarrow> distinct (map raw_id (pending_rows c))"
  by (simp add: pending_rows_def distinct_map distinct_filter inj_on_def Ball_def)

lemma db_inv_process_pending:
  assumes "db_inv c"
  shows "db_inv (fst (process_pending_with clean now c))"
proof -
  have "distinct (map raw_id (pending_rows c))"
    using assms by (intro pending_rows_distinct) (simp add: db_inv_def)
  moreover have "\<forall>r\<in>set (pending_rows c).
      raw_id r \<in> set (map raw_id (raw_entries c)) \<and> cleaned_for c (raw_id r) = []"
    using assms by (auto simp: pending_rows_set db_inv_def)
  ultimately have "db_inv (fst (fold (process_row clean now) (pending_rows c) (c, 0, 0)))"
    using assms by (intro db_inv_fold) auto
  then show ?thesis
    by (simp add: process_pending_with_def split: prod.splits)
qed

lemma reachable_db_inv: "reachable clean c \<Longrightarrow> db_inv c"
  by (induction rule: reachable.induct) (auto intro: db_inv_empty db_inv_add_raw db_inv_process_pending)

lemma demo_reachable: "reachable demo_clean demo_db"
  unfolding demo_db_def demo_pending_db_def by (intro reachable.intros)

lemmas db_eval = add_raw_def next_rowid_def empty_db_def process_pending_with_def pending_rows_def
  process_row_def insert_cleaned_def set_status_def demo_clean_def demo_now_def Let_def u_def

text \<open>
  C1. In every database reached from the empty one by \<open>add_raw\<close> and
  \<open>process_pending\<close> (with any cleaner in the place of \<open>tps_ai_clean\<close>), a raw
  entry with status \<open>processed\<close> has exactly one cleaned entry with its id as
  \<open>raw_id\<close>, and a raw entry with status \<open>pending\<close> or \<open>error\<close> has none.
\<close>

theorem processed_has_one_cleaned:
  assumes "reachable clean c" and "r \<in> set (raw_entries c)"
  shows "(status r = ''processed'' \<longrightarrow>
            length (filter (\<lambda>e. ce_raw_id e = raw_id r) (cleaned_entries c)) = 1) \<and>
         (status r = ''pending'' \<or> status r = ''error'' \<longrightarrow>
            filter (\<lambda>e. ce_raw_id e = raw_id r) (cleaned_entries c) = [])"
  using reachable_db_inv [OF assms(1)] assms(2)
  by (auto simp: db_inv_def cleaned_for_def)

theorem processed_has_one_cleaned_witness:
  "map (\<lambda>r. (raw_id r, status r)) (raw_entries demo_db) =
     [(1, ''error''), (2, ''processed''), (3, ''pending'')] \<and>
   filter (\<lambda>e. ce_raw_id e = 1) (cleaned_entries demo_db) = [] \<and>
   length (filter (\<lambda>e. ce_raw_id e = 2) (cleaned_entries demo_db)) = 1 \<and>
   filter (\<lambda>e. ce_raw_id e = 3) (cleaned_entries demo_db) = []"
proof -
  have rows: "raw_entries demo_db =
      [\<lparr>raw_id = 1, raw_text = u ''bad'', raw_created_at = ''2024-01-01T00:00:00Z'',
         status = ''error''\<rparr>,
       \<lparr>raw_id = 2, raw_text = u ''Hello world'', raw_created_at = ''2024-01-01T00:00:00Z'',
         status = ''processed''\<rparr>,
       \<lparr>raw_id = 3, raw_text = u ''later'', raw_created_at = ''2024-01-01T00:00:02Z'',
         status = ''pending''\<rparr>]"
    by (simp add: demo_db_def demo_pending_db_def db_eval split_beta)
  show ?thesis
    using processed_has_one_cleaned [OF demo_reachable, of "raw_entries demo_db ! 0"]
      processed_has_one_cleaned [OF demo_reachable, of "raw_entries demo_db ! 1"]
      processed_has_one_cleaned [OF demo_reachable, of "raw_entries demo_db ! 2"]
    by (simp add: rows)
qed

lemma count_three:
  "\<forall>r\<in>set rs. status r \<in> {''pending'', ''processed'', ''error''} \<Longrightarrow>
     length (filter (\<lambda>r. status r = ''pending'') rs) +
     length (filter (\<lambda>r. status r = ''processed'') rs) +
     length (filter (\<lambda>r. status r = ''error'') rs) = length rs"
  by (induction rs) auto

text \<open>
  C9. \<open>count_stats\<close> returns the number of raw entries, the number of them with
  status \<open>processed\<close> and the number with status \<open>error\<close>; in every reachable
  database the number of pending entries is the first minus the second minus the third
  (and the subtraction does not go below zero).
\<close>

theorem count_stats_pending:
  assumes "reachable clean c"
  shows "count_stats c =
           (length (raw_entries c),
            length (filter (\<lambda>r. status r = ''processed'') (raw_entries c)),
            length (filter (\<lambda>r. status r = ''error'') (raw_entries c))) \<and>
         length (filter (\<lambda>r. status r = ''pending'') (raw_entries c)) =
           fst (count_stats c) - fst (snd (count_stats c)) - snd (snd (count_stats c)) \<and>
         fst (snd (count_stats c)) + snd (snd (count_stats c)) \<le> fst (count_stats c)"
proof -
  have "\<forall>r\<in>set (raw_entries c). status r \<in> {''pending'', ''processed'', ''error''}"
    using reachable_db_inv [OF assms] by (simp add: db_inv_def)
  from count_three [OF this] show ?thesis
    by (simp add: count_stats_def count_status_def)
qed

theorem count_stats_pending_witness:
  "count_stats demo_db = (3, 1, 1) \<and>
   length (filter (\<lambda>r. status r = ''pending'') (raw_entries demo_db)) = 3 - 1 - 1"
proof -
  have "count_stats demo_db = (3, 1, 1)"
    by (simp add: count_stats_def count_status_def demo_db_def demo_pending_db_def db_eval
        split_beta)
  then show ?thesis
    using count_stats_pending [OF demo_reachable] by simp
qed

text \<open>
  The loop under the primary key alone: what one step and then the whole loop do to the
  counts of the statuses, to the rows of other entries, and to an entry whose cleaning
  fails.
\<close>

lemma set_row_decompose:
  assumes "distinct (map raw_id xs)" and "r \<in> set xs"
  shows "\<exists>as bs. xs = as @ r # bs \<and>
           map (\<lambda>x. if raw_id x = raw_id r then x\<lparr>status := s\<rparr> else x) xs =
             as @ r\<lparr>status := s\<rparr> # bs"
proof -
  from split_list [OF assms(2)] obtain as bs where xs: "xs = as @ r # bs"
    by blast
  have "\<forall>x\<in>set as. raw_id x \<noteq> raw_id r" "\<forall>x\<in>set bs. raw_id x \<noteq> raw_id r"
    using assms(1) unfolding xs by (auto simp: image_iff)
  then have "map (\<lambda>x. if raw_id x = raw_id r then x\<lparr>status := s\<rparr> else x) as = as"
    "map (\<lambda>x. if raw_id x = raw_id r then x\<lparr>status := s\<rparr> else x) bs = bs"
    by (simp_all add: map_idI)
  then show ?thesis
    using xs by auto
qed

lemma count_after_set:
  assumes "distinct (map raw_id xs)" and "r \<in> set xs" and "status r = ''pending''"
    and "s \<noteq> ''pending''"
  shows "length (filter (\<lambda>x. status x = t)
           (map (\<lambda>x. if raw_id x = raw_id r then x\<lparr>status := s\<rparr> else x) xs)) +
         (if t = ''pending'' then 1 else 0) =
         length (filter (\<lambda>x. status x = t) xs) + (if t = s then 1 else 0)"
proof -
  from set_row_decompose [OF assms(1,2), of s] obtain as bs where
    "xs = as @ r # bs"
    "map (\<lambda>x. if raw_id x = raw_id r then x\<lparr>status := s\<rparr> else x) xs = as @ r\<lparr>status := s\<rparr> # bs"
    by blast
  then show ?thesis
    using assms(3,4) by auto
qed

lemma process_row_counts:
  assumes pk: "distinct (map raw_id (raw_entries c))"
    and r: "r \<in> set (raw_entries c)" "status r = ''pending''"
    and step: "process_row clean now r (c, ok, err) = (c1, ok1, err1)"
  shows "ok1 + err1 = Suc (ok + err)"
    and "count_status c1 ''processed'' + ok = count_status c ''processed'' + ok1"
    and "count_status c1 ''error'' + err = count_status c ''error'' + err1"
    and "Suc (count_status c1 ''pending'') = count_status c ''pending''"
    and "length (cleaned_entries c1) + ok = length (cleaned_entries c) + ok1"
proof -
  have c1: "c1 = fst (process_row clean now r (c, ok, err))"
    and cnt: "snd (process_row clean now r (c, ok, err)) = (ok1, err1)"
    by (simp_all add: step)
  note cs = count_after_set [OF pk r]
  from process_row_cases [of clean now r c ok err]
  consider
    (failed) "raw_entries c1 =
        map (\<lambda>x. if raw_id x = raw_id r then x\<lparr>status := ''error''\<rparr> else x) (raw_entries c)"
      "cleaned_entries c1 = cleaned_entries c" "ok1 = ok" "err1 = Suc err"
  | (succeeded) e where "raw_entries c1 =
        map (\<lambda>x. if raw_id x = raw_id r then x\<lparr>status := ''processed''\<rparr> else x) (raw_entries c)"
      "cleaned_entries c1 = cleaned_entries c @ [e]" "ok1 = Suc ok" "err1 = err"
    unfolding c1 [symmetric] cnt by auto
  then have "ok1 + err1 = Suc (ok + err) \<and>
      count_status c1 ''processed'' + ok = count_status c ''processed'' + ok1 \<and>
      count_status c1 ''error'' + err = count_status c ''error'' + err1 \<and>
      Suc (count_status c1 ''pending'') = count_status c ''pending'' \<and>
      length (cleaned_entries c1) + ok = length (cleaned_entries c) + ok1"
  proof cases
    case failed
    show ?thesis
      using cs [of "''error''" "''processed''"] cs [of "''error''" "''error''"]
        cs [of "''error''" "''pending''"]
      by (simp add: count_status_def failed)
  next
    case succeeded
    show ?thesis
      using cs [of "''processed''" "''processed''"] cs [of "''processed''" "''error''"]
        cs [of "''processed''" "''pending''"]
      by (simp add: count_status_def succeeded)
  qed
  then show "ok1 + err1 = Suc (ok + err)"
    and "count_status c1 ''processed'' + ok = count_status c ''processed'' + ok1"
    and "count_status c1 ''error'' + err = count_status c ''error'' + err1"
    and "Suc (count_status c1 ''pending'') = count_status c ''pending''"
    and "length (cleaned_entries c1) + ok = length (cleaned_entries c) + ok1"
    by simp_all
qed

lemma process_row_keeps:
  assumes "x \<in> set (raw_entries c)" and "raw_id x \<noteq> raw_id r"
  shows "x \<in> set (raw_entries (fst (process_row clean now r (c, ok, err))))"
  using process_row_cases [of clean now r c ok err] assms by (auto simp: image_iff)

lemma fold_counts:
  assumes "distinct (map raw_id (raw_entries c))" and "distinct (map raw_id rs)"
    and "\<forall>r\<in>set rs. r \<in> set (raw_entries c) \<and> status r = ''pending''"
    and "fold (process_row clean now) rs (c, ok, err) = (c', ok', err')"
  shows "ok' + err' = ok + err + length rs \<and>
         count_status c' ''processed'' + ok = count_status c ''processed'' + ok' \<and>
         count_status c' ''error'' + err = count_status c ''error'' + err' \<and>
         count_status c' ''pending'' + length rs = count_status c ''pending'' \<and>
         length (cleaned_entries c') + ok = length (cleaned_entries c) + ok'"
  using assms
proof (induction rs arbitrary: c ok err)
  case Nil
  then show ?case by simp
next
  case (Cons r rs)
  obtain c1 ok1 err1 where step: "process_row clean now r (c, ok, err) = (c1, ok1, err1)"
    by (cases "process_row clean now r (c, ok, err)") auto
  have c1: "c1 = fst (process_row clean now r (c, ok, err))"
    by (simp add: step)
  have r: "r \<in> set (raw_entries c)" "status r = ''pending''"
    using Cons.prems(3) by auto
  note one = process_row_counts [OF Cons.prems(1) r step]
  have pk1: "distinct (map raw_id (raw_entries c1))"
    unfolding c1 process_row_ids by (rule Cons.prems(1))
  have rest: "\<forall>x\<in>set rs. x \<in> set (raw_entries c1) \<and> status x = ''pending''"
  proof
    fix x
    assume x: "x \<in> set rs"
    then have "raw_id x \<noteq> raw_id r"
      using Cons.prems(2) by (auto simp: image_iff)
    then show "x \<in> set (raw_entries c1) \<and> status x = ''pending''"
      unfolding c1 using Cons.prems(3) x by (simp add: process_row_keeps)
  qed
  have "fold (process_row clean now) rs (c1, ok1, err1) = (c', ok', err')"
    using Cons.prems(4) by (simp add: step)
  from Cons.IH [OF pk1 _ rest this] Cons.prems(2)
  have "ok' + err' = ok1 + err1 + length rs \<and>
      count_status c' ''processed'' + ok1 = count_status c1 ''processed'' + ok' \<and>
      count_status c' ''error'' + err1 = count_status c1 ''error'' + err' \<and>
      count_status c' ''pending'' + length rs = count_status c1 ''pending'' \<and>
      length (cleaned_entries c') + ok1 = length (cleaned_entries c1) + ok'"
    by simp
  then show ?case
    using one by simp
qed

lemma filter_other_row:
  "k \<noteq> i \<Longrightarrow>
     filter (\<lambda>x. raw_id x = k) (map (\<lambda>x. if raw_id x = i then x\<lparr>status := s\<rparr> else x) xs) =
     filter (\<lambda>x. raw_id x = k) xs"
  by (induction xs) auto

lemma process_row_other_rows:
  "k \<noteq> raw_id r \<Longrightarrow>
     filter (\<lambda>x. raw_id x = k) (raw_entries (fst (process_row clean now r (c, ok, err)))) =
     filter (\<lambda>x. raw_id x = k) (raw_entries c)"
  using process_row_cases [of clean now r c ok err] by (auto simp: filter_other_row)

lemma fold_ids:
  "map raw_id (raw_entries (fst (fold (process_row clean now) rs (c, ok, err)))) =
     map raw_id (raw_entries c)"
proof (induction rs arbitrary: c ok err)
  case Nil
  show ?case by simp
next
  case (Cons r rs)
  obtain c1 ok1 err1 where step: "process_row clean now r (c, ok, err) = (c1, ok1, err1)"
    by (cases "process_row clean now r (c, ok, err)") auto
  have "map raw_id (raw_entries c1) = map raw_id (raw_entries c)"
    using process_row_ids [of clean now r c ok err] by (simp add: step)
  then show ?case
    using Cons.IH [of c1 ok1 err1] by (simp add: step)
qed

lemma fold_other:
  "k \<notin> raw_id ` set rs \<Longrightarrow>
     cleaned_for (fst (fold (process_row clean now) rs (c, ok, err))) k = cleaned_for c k \<and>
     filter (\<lambda>x. raw_id x = k) (raw_entries (fst (fold (process_row clean now) rs (c, ok, err)))) =
       filter (\<lambda>x. raw_id x = k) (raw_entries c)"
proof (induction rs arbitrary: c ok err)
  case Nil
  show ?case by simp
next
  case (Cons r rs)
  obtain c1 ok1 err1 where step: "process_row clean now r (c, ok, err) = (c1, ok1, err1)"
    by (cases "process_row clean now r (c, ok, err)") auto
  have k: "k \<noteq> raw_id r" "k \<notin> raw_id ` set rs"
    using Cons.prems by auto
  have "cleaned_for c1 k = cleaned_for c k"
    "filter (\<lambda>x. raw_id x = k) (raw_entries c1) = filter (\<lambda>x. raw_id x = k) (raw_entries c)"
    using process_row_other [OF k(1), of clean now c ok err]
      process_row_other_rows [OF k(1), of clean now c ok err]
    by (simp_all add: step)
  then show ?case
    using Cons.IH [OF k(2), of c1 ok1 err1] by (simp add: step)
qed

lemma fold_failed:
  assumes "distinct (map raw_id rs)" and "r \<in> set rs"
    and "isl (clean (fst (now (raw_id r))) (raw_text r))"
  shows "cleaned_for (fst (fold (process_row clean now) rs (c, ok, err))) (raw_id r) =
           cleaned_for c (raw_id r) \<and>
         (\<forall>x\<in>set (raw_entries (fst (fold (process_row clean now) rs (c, ok, err)))).
            raw_id x = raw_id r \<longrightarrow> status x = ''error'')"
  using assms(1,2)
proof (induction rs arbitrary: c ok err)
  case Nil
  then show ?case by simp
next
  case (Cons r0 rs)
  obtain c1 ok1 err1 where step: "process_row clean now r0 (c, ok, err) = (c1, ok1, err1)"
    by (cases "process_row clean now r0 (c, ok, err)") auto
  have c1: "c1 = fst (process_row clean now r0 (c, ok, err))"
    by (simp add: step)
  define c' where "c' = fst (fold (process_row clean now) rs (c1, ok1, err1))"
  have goal: "fst (fold (process_row clean now) (r0 # rs) (c, ok, err)) = c'"
    by (simp add: step c'_def)
  show ?case
  proof (cases "raw_id r0 = raw_id r")
    case True
    then have same: "clean (fst (now (raw_id r0))) (raw_text r0) = clean (fst (now (raw_id r))) (raw_text r)"
      using Cons.prems by (auto simp: image_iff)
    have failed: "raw_entries c1 =
        map (\<lambda>x. if raw_id x = raw_id r then x\<lparr>status := ''error''\<rparr> else x) (raw_entries c)"
      "cleaned_entries c1 = cleaned_entries c"
      using process_row_cases [of clean now r0 c ok err] assms(3) same True
      by (auto simp: c1)
    have "raw_id r \<notin> raw_id ` set rs"
      using Cons.prems(1) True by auto
    from fold_other [OF this, of clean now c1 ok1 err1]
    have cf: "cleaned_for c' (raw_id r) = cleaned_for c1 (raw_id r)"
      and rows: "filter (\<lambda>x. raw_id x = raw_id r) (raw_entries c') =
        filter (\<lambda>x. raw_id x = raw_id r) (raw_entries c1)"
      by (simp_all add: c'_def)
    have "\<forall>x\<in>set (filter (\<lambda>x. raw_id x = raw_id r) (raw_entries c')). status x = ''error''"
      unfolding rows failed by auto
    then have "\<forall>x\<in>set (raw_entries c'). raw_id x = raw_id r \<longrightarrow> status x = ''error''"
      by auto
    moreover have "cleaned_for c' (raw_id r) = cleaned_for c (raw_id r)"
      unfolding cf by (simp add: cleaned_for_def failed)
    ultimately show ?thesis
      unfolding goal by simp
  next
    case False
    then have "r \<in> set rs" "distinct (map raw_id rs)"
      using Cons.prems by auto
    from Cons.IH [OF this(2,1), of c1 ok1 err1]
    have "cleaned_for c' (raw_id r) = cleaned_for c1 (raw_id r)"
      "\<forall>x\<in>set (raw_entries c'). raw_id x = raw_id r \<longrightarrow> status x = ''error''"
      by (simp_all add: c'_def)
    moreover have "cleaned_for c1 (raw_id r) = cleaned_for c (raw_id r)"
      unfolding c1 using False by (intro process_row_other) auto
    ultimately show ?thesis
      unfolding goal by simp
  qed
qed

lemma process_row_err:
  "snd (snd (process_row clean now r (c, ok, err))) =
     (if isl (clean (fst (now (raw_id r))) (raw_text r)) then Suc err
      else snd (snd (process_row clean now r (c, ok, err)))) \<and>
   err \<le> snd (snd (process_row clean now r (c, ok, err)))"
  using process_row_cases [of clean now r c ok err] by auto

lemma fold_err_mono: "err \<le> snd (snd (fold (process_row clean now) rs (c, ok, err)))"
proof (induction rs arbitrary: c ok err)
  case Nil
  show ?case by simp
next
  case (Cons r rs)
  obtain c1 ok1 err1 where step: "process_row clean now r (c, ok, err) = (c1, ok1, err1)"
    by (cases "process_row clean now r (c, ok, err)") auto
  have "err \<le> err1"
    using process_row_err [of clean now r c ok err] by (simp add: step)
  then show ?case
    using Cons.IH [where c = c1 and ok = ok1 and err = err1] by (simp add: step)
qed

lemma fold_failed_err:
  assumes "r \<in> set rs" and "isl (clean (fst (now (raw_id r))) (raw_text r))"
  shows "Suc err \<le> snd (snd (fold (process_row clean now) rs (c, ok, err)))"
  using assms(1)
proof (induction rs arbitrary: c ok err)
  case Nil
  then show ?case by simp
next
  case (Cons r0 rs)
  obtain c1 ok1 err1 where step: "process_row clean now r0 (c, ok, err) = (c1, ok1, err1)"
    by (cases "process_row clean now r0 (c, ok, err)") auto
  have le: "err \<le> err1"
    using process_row_err [of clean now r0 c ok err] by (simp add: step)
  show ?case
  proof (cases "r0 = r")
    case True
    then have "isl (clean (fst (now (raw_id r0))) (raw_text r0))"
      using assms(2) by simp
    then have "err1 = Suc err"
      using process_row_err [of clean now r0 c ok err] by (simp add: step)
    then show ?thesis
      using fold_err_mono [where err = err1 and c = c1 and ok = ok1 and rs = rs
          and clean = clean and now = now]
      by (simp add: step)
  next
    case False
    then have "r \<in> set rs"
      using Cons.prems by simp
    from Cons.IH [OF this, where err = err1 and c = c1 and ok = ok1] le show ?thesis
      by (simp add: step)
  qed
qed

text \<open>
  C2. When the cleaning step raises for a pending raw entry, \<open>process_pending\<close> sets
  the status of that entry to \<open>error\<close> and creates no cleaned entry for it; the batch
  goes on, so that no entry is pending afterwards; and the pair returned counts the
  entries that became \<open>processed\<close> (as many as the cleaned entries created) and the
  entries that became \<open>error\<close>, the failing entry among them. The ids of the raw
  entries are taken to differ, as the primary key of the table makes them.
\<close>

theorem process_pending_failure:
  assumes pk: "distinct (map raw_id (raw_entries c))"
    and r: "r \<in> set (raw_entries c)" "status r = ''pending''"
    and fails: "clean (fst (now (raw_id r))) (raw_text r) = Inl e"
    and res: "process_pending_with clean now c = (c', ok, err)"
  shows "(\<exists>x\<in>set (raw_entries c'). raw_id x = raw_id r) \<and>
         (\<forall>x\<in>set (raw_entries c'). raw_id x = raw_id r \<longrightarrow> status x = ''error'') \<and>
         filter (\<lambda>e. ce_raw_id e = raw_id r) (cleaned_entries c') =
           filter (\<lambda>e. ce_raw_id e = raw_id r) (cleaned_entries c) \<and>
         (\<forall>x\<in>set (raw_entries c'). status x \<noteq> ''pending'') \<and>
         ok + err = length (filter (\<lambda>x. status x = ''pending'') (raw_entries c)) \<and>
         length (filter (\<lambda>x. status x = ''processed'') (raw_entries c')) =
           length (filter (\<lambda>x. status x = ''processed'') (raw_entries c)) + ok \<and>
         length (filter (\<lambda>x. status x = ''error'') (raw_entries c')) =
           length (filter (\<lambda>x. status x = ''error'') (raw_entries c)) + err \<and>
         length (cleaned_entries c') = length (cleaned_entries c) + ok \<and>
         1 \<le> err"
proof -
  define rs where "rs = pending_rows c"
  have run: "fold (process_row clean now) rs (c, 0, 0) = (c', ok, err)"
    using res by (auto simp: process_pending_with_def rs_def split: prod.splits)
  then have c': "c' = fst (fold (process_row clean now) rs (c, 0, 0))"
    by simp
  have drs: "distinct (map raw_id rs)"
    unfolding rs_def using pk by (rule pending_rows_distinct)
  have mem: "\<forall>x\<in>set rs. x \<in> set (raw_entries c) \<and> status x = ''pending''"
    by (simp add: rs_def pending_rows_set)
  have len: "length rs = count_status c ''pending''"
    by (simp add: rs_def pending_rows_def count_status_def)
  have rin: "r \<in> set rs"
    using r by (simp add: rs_def pending_rows_set)
  have isl: "isl (clean (fst (now (raw_id r))) (raw_text r))"
    by (simp add: fails)
  note counts = fold_counts [OF pk drs mem run]
  note failed = fold_failed [where clean = clean and now = now and c = c and ok = 0 and err = 0,
      OF drs rin isl, folded c']
  have ids: "map raw_id (raw_entries c') = map raw_id (raw_entries c)"
    unfolding c' by (rule fold_ids)
  have "raw_id r \<in> set (map raw_id (raw_entries c'))"
    unfolding ids using r(1) by simp
  then have ex: "\<exists>x\<in>set (raw_entries c'). raw_id x = raw_id r"
    by auto
  have "count_status c' ''pending'' = 0"
    using counts len by simp
  then have none: "\<forall>x\<in>set (raw_entries c'). status x \<noteq> ''pending''"
    by (auto simp: count_status_def filter_empty_conv)
  have "1 \<le> err"
    using fold_failed_err [where clean = clean and now = now and err = 0 and c = c and ok = 0,
        OF rin isl]
    by (simp add: run)
  show ?thesis
    using ex failed none counts len \<open>1 \<le> err\<close>
    by (simp add: count_status_def cleaned_for_def)
qed

theorem process_pending_failure_witness:
  "map (\<lambda>r. (raw_id r, status r)) (raw_entries demo_pending_db) =
     [(1, ''pending''), (2, ''pending'')] \<and>
   demo_clean (fst (demo_now 1)) (u ''bad'') = Inl (Raised ''cannot clean'') \<and>
   map (\<lambda>r. (raw_id r, status r))
     (raw_entries (fst (process_pending_with demo_clean demo_now demo_pending_db))) =
     [(1, ''error''), (2, ''processed'')] \<and>
   map ce_raw_id (cleaned_entries (fst (process_pending_with demo_clean demo_now demo_pending_db))) = [2] \<and>
   snd (process_pending_with demo_clean demo_now demo_pending_db) = (1, 1)"
proof -
  define r where "r = \<lparr>raw_id = 1, raw_text = u ''bad'',
      raw_created_at = ''2024-01-01T00:00:00Z'', status = ''pending''\<rparr>"
  have rows: "raw_entries demo_pending_db =
      [r, \<lparr>raw_id = 2, raw_text = u ''Hello world'', raw_created_at = ''2024-01-01T00:00:00Z'',
         status = ''pending''\<rparr>]"
    and none: "cleaned_entries demo_pending_db = []"
    by (simp_all add: demo_pending_db_def r_def add_raw_def next_rowid_def empty_db_def)
  have pk: "distinct (map raw_id (raw_entries demo_pending_db))"
    by (simp add: rows r_def)
  have mem: "r \<in> set (raw_entries demo_pending_db)" and pend: "status r = ''pending''"
    by (simp_all add: rows) (simp add: r_def)
  have fails: "demo_clean (fst (demo_now (raw_id r))) (raw_text r) = Inl (Raised ''cannot clean'')"
    by (simp add: demo_clean_def r_def)
  have res: "process_pending_with demo_clean demo_now demo_pending_db =
      (fst (process_pending_with demo_clean demo_now demo_pending_db),
       fst (snd (process_pending_with demo_clean demo_now demo_pending_db)),
       snd (snd (process_pending_with demo_clean demo_now demo_pending_db)))"
    by simp
  have out: "map (\<lambda>r. (raw_id r, status r))
       (raw_entries (fst (process_pending_with demo_clean demo_now demo_pending_db))) =
       [(1, ''error''), (2, ''processed'')]"
    "map ce_raw_id (cleaned_entries (fst (process_pending_with demo_clean demo_now demo_pending_db))) = [2]"
    "snd (process_pending_with demo_clean demo_now demo_pending_db) = (1, 1)"
    by (simp_all add: demo_pending_db_def db_eval split_beta)
  show ?thesis
    using process_pending_failure [OF pk mem pend fails res] out fails
    by (simp add: rows r_def)
qed

section \<open>Properties of the search\<close>

text \<open>
  For a query without wildcards, the pattern \<open>%query%\<close> matches the texts that
  contain the query up to the case of ASCII letters.
\<close>

lemma like_percent: "like [37] s"
  by (induction s) simp_all

lemma like_prefix:
  "\<forall>ch\<in>set q. ch \<noteq> 37 \<and> ch \<noteq> 95 \<Longrightarrow> like (q @ [37]) s = nocase_prefix q s"
proof (induction q s rule: nocase_prefix.induct)
  case (1 s)
  show ?case by (simp add: like_percent)
next
  case (2 p ps)
  then show ?case by simp
next
  case (3 p ps c cs)
  then show ?case by simp
qed

lemma like_contains:
  assumes "\<forall>ch\<in>set q. ch \<noteq> 37 \<and> ch \<noteq> 95"
  shows "like ([37] @ q @ [37]) s = contains_nocase q s"
proof (induction s)
  case Nil
  show ?case
    using like_prefix [OF assms, of "[]"] by simp
next
  case (Cons c cs)
  show ?case
    using like_prefix [OF assms, of "c # cs"] Cons.IH by simp
qed

lemma like_eq_refl: "like_eq c c"
  by (simp add: like_eq_def)

lemma prefix_nocase: "prefix q s \<Longrightarrow> nocase_prefix q s"
  by (induction q s rule: nocase_prefix.induct) (simp_all add: like_eq_refl)

lemma sublist_contains_nocase: "sublist q s \<Longrightarrow> contains_nocase q s"
proof (induction s)
  case Nil
  then show ?case by simp
next
  case (Cons c cs)
  then show ?case
    by (auto simp: sublist_Cons_right dest: prefix_nocase)
qed

lemma c_str_id: "0 \<notin> set t \<Longrightarrow> c_str t = t"
  by (induction t) (auto simp: c_str_def)

lemma utf8_length_append: "utf8_length (a @ b) = utf8_length a + utf8_length b"
  by (simp add: utf8_length_def)

lemma nocase_prefix_iff:
  "nocase_prefix q s = (\<exists>m b. s = m @ b \<and> list_all2 like_eq q m)"
proof (induction q s rule: nocase_prefix.induct)
  case (1 s)
  show ?case by simp
next
  case (2 p ps)
  show ?case by (simp add: list_all2_Cons1)
next
  case (3 p ps c cs)
  show ?case
    unfolding nocase_prefix.simps "3.IH"
    by (auto simp: list_all2_Cons1 Cons_eq_append_conv)
qed

text \<open>\<open>contains_nocase\<close> says that a part of the text is the query, character by character up to \<open>like_eq\<close>.\<close>

lemma contains_nocase_iff:
  "contains_nocase q s = (\<exists>a m b. s = a @ m @ b \<and> list_all2 like_eq q m)"
proof (induction s)
  case Nil
  show ?case by (auto simp: nocase_prefix_iff)
next
  case (Cons c cs)
  show ?case
    unfolding contains_nocase.simps Cons.IH nocase_prefix_iff
    by (auto simp: Cons_eq_append_conv) (metis append_Cons)+
qed

text \<open>
  \<open>like_eq\<close> is equality after \<open>ascii_fold\<close>, and so \<open>contains_nocase\<close> is
  containment of the folded query in the folded text.
\<close>

lemma like_eq_fold: "like_eq p c = (ascii_fold p = ascii_fold c)"
  by (auto simp: like_eq_def sqlite_lower_def ascii_upper_def ascii_fold_def split: if_splits)

lemma list_all2_like_eq: "list_all2 like_eq q m = (map ascii_fold q = map ascii_fold m)"
proof -
  have "like_eq = (\<lambda>p c. ascii_fold p = ascii_fold c)"
    by (intro ext) (rule like_eq_fold)
  then have "list_all2 like_eq q m = list_all2 (=) (map ascii_fold q) (map ascii_fold m)"
    by (simp add: list_all2_map1 list_all2_map2)
  then show ?thesis
    by (simp only: list_all2_eq)
qed

lemma contains_nocase_sublist:
  "contains_nocase q s = sublist (map ascii_fold q) (map ascii_fold s)"
proof
  assume "contains_nocase q s"
  then obtain a m b where "s = a @ m @ b" "map ascii_fold q = map ascii_fold m"
    unfolding contains_nocase_iff list_all2_like_eq by blast
  then have "map ascii_fold s = map ascii_fold a @ map ascii_fold q @ map ascii_fold b"
    by simp
  then show "sublist (map ascii_fold q) (map ascii_fold s)"
    unfolding sublist_def by blast
next
  assume "sublist (map ascii_fold q) (map ascii_fold s)"
  then obtain ps ss where "map ascii_fold s = ps @ map ascii_fold q @ ss"
    unfolding sublist_def by blast
  then obtain a r where s: "s = a @ r" and r: "map ascii_fold q @ ss = map ascii_fold r"
    by (auto simp: map_eq_append_conv)
  from r obtain m b where "r = m @ b" "map ascii_fold q = map ascii_fold m"
    by (auto simp: append_eq_map_conv)
  with s show "contains_nocase q s"
    unfolding contains_nocase_iff list_all2_like_eq by blast
qed

lemma sublist_fold: "sublist q s \<Longrightarrow> sublist (map ascii_fold q) (map ascii_fold s)"
  unfolding sublist_def by (metis map_append)

text \<open>A query with a lone surrogate never reaches the database.\<close>

lemma search_clean_surrogate:
  "search_clean fts c [55296] use_fts = Inl (UnicodeEncodeError ''surrogates not allowed'')"
  by (simp add: search_clean_def utf8_encodable_def unicode_scalar_def)

text \<open>
  C3 (as amended). Without the index, for a query that can be encoded in UTF-8, has no
  \<open>%\<close>, \<open>_\<close> or NUL and is of at most 49998 bytes, \<open>search_clean\<close> returns the
  first 50, by descending id, of the cleaned entries whose \<open>clean_text\<close>, read up to
  its first NUL, contains the query with ASCII letters compared without regard to case.
  With at most 50 cleaned entries, every entry whose \<open>clean_text\<close> contains the query
  literally before its first NUL is returned; and so the query \<open>wor\<close> returns an entry
  whose \<open>clean_text\<close> contains \<open>world\<close> there.
\<close>

theorem search_clean_like:
  assumes enc: "utf8_encodable query"
    and plain: "\<forall>ch\<in>set query. ch \<noteq> 37 \<and> ch \<noteq> 95 \<and> ch \<noteq> 0"
    and short: "utf8_length query + 2 \<le> like_pattern_limit"
  shows "search_clean fts c query False =
           Inr (take 50 (rev (sort_key sr_id
             (filter (\<lambda>row. sublist (map ascii_fold query)
                              (map ascii_fold (c_str (sr_clean_text row))))
                (joined_rows c))))) \<and>
         (length (joined_rows c) \<le> 50 \<longrightarrow>
            (\<forall>row\<in>set (joined_rows c). sublist query (c_str (sr_clean_text row)) \<longrightarrow>
               (\<exists>rows. search_clean fts c query False = Inr rows \<and> row \<in> set rows))) \<and>
         (length (joined_rows c) \<le> 50 \<and> query = u ''wor'' \<longrightarrow>
            (\<forall>row\<in>set (joined_rows c). sublist (u ''world'') (c_str (sr_clean_text row)) \<longrightarrow>
               (\<exists>rows. search_clean fts c query False = Inr rows \<and> row \<in> set rows)))"
proof -
  define found where "found =
    filter (\<lambda>row. sublist (map ascii_fold query) (map ascii_fold (c_str (sr_clean_text row))))
      (joined_rows c)"
  have "0 \<notin> set ([37] @ query @ [37])"
    using plain by auto
  then have q: "c_str ([37] @ query @ [37]) = [37] @ query @ [37]"
    by (rule c_str_id)
  have wild: "\<forall>ch\<in>set query. ch \<noteq> 37 \<and> ch \<noteq> 95"
    using plain by simp
  have len: "\<not> like_pattern_limit < utf8_length ([37] @ query @ [37])"
    using short by (simp add: utf8_length_append) (simp add: utf8_length_def)
  have main: "search_clean fts c query False = Inr (take 50 (rev (sort_key sr_id found)))"
    unfolding search_clean_def Let_def q like_contains [OF wild] newest_50_def
      contains_nocase_sublist found_def
    using len enc by simp
  have all: "row \<in> set (take 50 (rev (sort_key sr_id found)))"
    if few: "length (joined_rows c) \<le> 50" and row: "row \<in> set (joined_rows c)"
      and lit: "sublist query (c_str (sr_clean_text row))" for row
  proof -
    have "length found \<le> 50"
      using few length_filter_le [of _ "joined_rows c"] unfolding found_def
      by (rule order_trans [rotated])
    then have "take 50 (rev (sort_key sr_id found)) = rev (sort_key sr_id found)"
      by simp
    moreover have "row \<in> set found"
      using row sublist_fold [OF lit] by (simp add: found_def)
    ultimately show ?thesis
      by simp
  qed
  have "sublist (u ''wor'') (u ''world'')"
    by (simp add: u_def sublist_Cons_right)
  then have wor: "sublist (u ''wor'') t" if "sublist (u ''world'') t" for t
    using that sublist_order.order_trans by blast
  show ?thesis
    unfolding main found_def [symmetric] using all wor by blast
qed

lemma search_db_rows:
  "joined_rows search_db =
     [\<lparr>sr_id = 1, sr_raw_id = 1, sr_clean_text_preview = u ''Hello world'',
       sr_clean_text = u ''Hello world'',
       sr_metadata_json = snd (tps_ai_clean ascii_db ''2024-01-01T00:00:01Z'' (u ''Hello world'')),
       sr_created_at = ''2024-01-01T00:00:01Z'', sr_raw_created_at = ''2024-01-01T00:00:00Z''\<rparr>]"
proof -
  have cl: "fst (tps_ai_clean ascii_db now (u ''Hello world'')) = u ''Hello world''" for now
    by (simp add: tps_ai_clean_def norm_eval Let_def)
  have pv: "preview (u ''Hello world'') = u ''Hello world''"
    by (simp add: preview_def c_str_def u_def)
  show ?thesis
    by (simp add: joined_rows_def search_db_def process_pending_def process_pending_with_def
        pending_rows_def process_row_def insert_cleaned_def set_status_def add_raw_def
        next_rowid_def empty_db_def split_beta cl pv)
qed

lemmas like_eval = like_eq_def sqlite_lower_def ascii_upper_def c_str_def utf8_length_def
  like_pattern_limit_def newest_50_def utf8_encodable_def unicode_scalar_def ascii_fold_def

theorem search_clean_like_witness:
  "map_sum id (map sr_clean_text) (search_clean no_fts search_db (u ''wor'') False) =
     Inr [u ''Hello world''] \<and>
   sublist (u ''world'') (c_str (u ''Hello world'')) \<and>
   length (joined_rows search_db) \<le> 50"
proof -
  have enc: "utf8_encodable (u ''wor'')"
    by (simp add: u_def utf8_encodable_def unicode_scalar_def)
  have plain: "\<forall>ch\<in>set (u ''wor''). ch \<noteq> 37 \<and> ch \<noteq> 95 \<and> ch \<noteq> 0"
    by (simp add: u_def)
  have short: "utf8_length (u ''wor'') + 2 \<le> like_pattern_limit"
    by (simp add: u_def utf8_length_def like_pattern_limit_def)
  have world: "sublist (u ''world'') (c_str (u ''Hello world''))"
    by (simp add: u_def c_str_def sublist_Cons_right)
  have folded: "sublist (map ascii_fold (u ''wor'')) (map ascii_fold (c_str (u ''Hello world'')))"
    by (simp add: u_def c_str_def ascii_fold_def sublist_Cons_right)
  show ?thesis
    using search_clean_like [OF enc plain short, of no_fts search_db] world folded
    by (simp add: search_db_rows)
qed

text \<open>
  The scan is not a case-sensitive search for the literal query: \<open>WORLD\<close> and
  \<open>H_l%d\<close> both find the entry \<open>Hello world\<close>, which contains neither.
\<close>

theorem search_clean_literal_counterexample:
  "map_sum id (map sr_clean_text) (search_clean no_fts search_db (u ''WORLD'') False) =
     Inr [u ''Hello world''] \<and>
   \<not> sublist (u ''WORLD'') (u ''Hello world'') \<and>
   map_sum id (map sr_clean_text) (search_clean no_fts search_db (u ''H_l%d'') False) =
     Inr [u ''Hello world''] \<and>
   \<not> sublist (u ''H_l%d'') (u ''Hello world'')"
  by (simp add: search_clean_def search_db_rows Let_def u_def like_eval sublist_Cons_right)

end
